theory Spec2Isabelle
  imports Main "HOL-Library.Sublist"
begin

section \<open>Python string operations used by the parser\<close>

text \<open>
  Texts are lists of characters. The parser uses \<open>str.find\<close>, the \<open>in\<close> test,
  \<open>str.replace(old, "")\<close>, slicing and \<open>str.rstrip("\n")\<close>. \<open>str.find\<close> returns
  the lowest index of an occurrence, or \<open>-1\<close>, which is \<open>None\<close> here.
\<close>

fun str_find :: "string \<Rightarrow> string \<Rightarrow> nat option" where
  "str_find pat [] = (if pat = [] then Some 0 else None)"
| "str_find pat (c # cs) =
     (if prefix pat (c # cs) then Some 0 else map_option Suc (str_find pat cs))"

definition str_find_from :: "string \<Rightarrow> string \<Rightarrow> nat \<Rightarrow> nat option" where
  \<comment> \<open>\<open>s.find(pat, start)\<close> for \<open>0 \<le> start \<le> len(s)\<close>\<close>
  "str_find_from pat s start = map_option (\<lambda>i. start + i) (str_find pat (drop start s))"

definition str_in :: "string \<Rightarrow> string \<Rightarrow> bool" where
  \<comment> \<open>\<open>pat in s\<close>\<close>
  "str_in pat s = (str_find pat s \<noteq> None)"

function str_remove :: "string \<Rightarrow> string \<Rightarrow> string" where
  "str_remove old [] = []"
| "str_remove old (c # cs) =
     (if old \<noteq> [] \<and> prefix old (c # cs)
      then str_remove old (drop (length old) (c # cs))
      else c # str_remove old cs)"
  by pat_completeness auto
termination
  by (relation "measure (\<lambda>(old, s). length s)") auto

definition rstrip_nl :: "string \<Rightarrow> string" where
  \<comment> \<open>\<open>s.rstrip("\n")\<close>\<close>
  "rstrip_nl s = rev (dropWhile (\<lambda>c. c = CHR 0x0A) (rev s))"

definition opt_content :: "string \<Rightarrow> string option" where
  \<comment> \<open>\<open>content if content else None\<close>\<close>
  "opt_content s = (if s = [] then None else Some s)"

section \<open>The parser's constants and the narration-delimiter stripper\<close>

definition tool_call_start_token :: string where
  "tool_call_start_token = ''<tool_call>''"

definition tool_call_end_token :: string where
  "tool_call_end_token = ''</tool_call>''"

definition tool_calls_start_token :: string where
  "tool_calls_start_token = tool_call_start_token"

definition strip_think_tags :: "string \<Rightarrow> string" where
  "strip_think_tags text = str_remove ''</think>'' (str_remove ''<think>'' text)"

section \<open>JSON values and the two library calls\<close>

text \<open>
  The parser calls \<open>json.loads\<close> and \<open>json.dumps\<close> of the Python standard library.
  A parsed value is a \<open>json\<close>: a Python dict is an association list in insertion
  order, a float is kept as the text \<open>repr\<close> gives it (floating point is not modelled).

  \<open>json.loads\<close> is a parameter \<open>loads\<close> of the parser's functions below, \<open>None\<close>
  standing for the exception it raises, so that the general theorems hold for every
  reader. \<open>json.dumps(v, ensure_ascii=False)\<close> is \<open>json_dumps\<close>: the default
  separators \<open>", "\<close> and \<open>": "\<close>, keys in the dict's own order.
\<close>

datatype json =
    JNull
  | JBool bool
  | JInt int
  | JFloat string
  | JStr string
  | JArr "json list"
  | JObj "(string \<times> json) list"

type_synonym json_reader = "string \<Rightarrow> json option"

fun dict_get :: "(string \<times> json) list \<Rightarrow> string \<Rightarrow> json \<Rightarrow> json" where
  \<comment> \<open>\<open>d.get(k, default)\<close>\<close>
  "dict_get [] k d = d"
| "dict_get ((k', v) # kvs) k d = (if k' = k then v else dict_get kvs k d)"

fun dict_set :: "(string \<times> json) list \<Rightarrow> string \<Rightarrow> json \<Rightarrow> (string \<times> json) list" where
  \<comment> \<open>\<open>d[k] = v\<close>: a key already present keeps its place\<close>
  "dict_set [] k v = [(k, v)]"
| "dict_set ((k', v') # kvs) k v =
     (if k' = k then (k, v) # kvs else (k', v') # dict_set kvs k v)"

function nat_repr :: "nat \<Rightarrow> string" where
  "nat_repr n =
     (if n < 10 then [''0123456789'' ! n]
      else nat_repr (n div 10) @ [''0123456789'' ! (n mod 10)])"
  by pat_completeness auto
termination
  by (relation "measure id") auto

definition int_repr :: "int \<Rightarrow> string" where
  "int_repr i = (if i < 0 then CHR ''-'' # nat_repr (nat (- i)) else nat_repr (nat i))"

definition escape_char :: "char \<Rightarrow> string" where
  \<comment> \<open>the escapes of \<open>json.encoder.py_encode_basestring\<close>\<close>
  "escape_char c =
     (if c = CHR 0x22 then [CHR 0x5C, CHR 0x22]
      else if c = CHR 0x5C then [CHR 0x5C, CHR 0x5C]
      else if c = CHR 0x0A then [CHR 0x5C, CHR ''n'']
      else if c = CHR 0x0D then [CHR 0x5C, CHR ''r'']
      else if c = CHR 0x09 then [CHR 0x5C, CHR ''t'']
      else if c = CHR 0x08 then [CHR 0x5C, CHR ''b'']
      else if c = CHR 0x0C then [CHR 0x5C, CHR ''f'']
      else if (of_char c :: nat) < 0x20
        then [CHR 0x5C, CHR ''u'', CHR ''0'', CHR ''0'',
              ''0123456789abcdef'' ! (of_char c div 16),
              ''0123456789abcdef'' ! (of_char c mod 16)]
      else [c])"

definition encode_str :: "string \<Rightarrow> string" where
  "encode_str s = CHR 0x22 # concat (map escape_char s) @ [CHR 0x22]"

fun join_sep :: "string \<Rightarrow> string list \<Rightarrow> string" where
  \<comment> \<open>\<open>sep.join(xs)\<close>\<close>
  "join_sep sep [] = []"
| "join_sep sep [x] = x"
| "join_sep sep (x # y # ys) = x @ sep @ join_sep sep (y # ys)"

fun json_dumps :: "json \<Rightarrow> string" where
  "json_dumps JNull = ''null''"
| "json_dumps (JBool b) = (if b then ''true'' else ''false'')"
| "json_dumps (JInt i) = int_repr i"
| "json_dumps (JFloat r) = r"
| "json_dumps (JStr s) = encode_str s"
| "json_dumps (JArr xs) = ''['' @ join_sep '', '' (map json_dumps xs) @ '']''"
| "json_dumps (JObj kvs) =
     ''{'' @ join_sep '', '' (map (\<lambda>(k, v). encode_str k @ '': '' @ json_dumps v) kvs) @ ''}''"

subsection \<open>A reader for concrete texts\<close>

text \<open>
  \<open>json_loads\<close> reads the JSON grammar as \<open>json.loads\<close> does, on the texts whose
  numbers are integers (no fraction, exponent, \<open>NaN\<close> or \<open>Infinity\<close>) and whose strings
  have no \<open>\u\<close> escape; it is the reader of the concrete evaluations below, and the
  general theorems do not depend on it. White space is \<open>[ \t\n\r]\<close>, a key that occurs
  twice keeps its first place and its last value, and text after the value is an error.
  Each call of the recursion consumes a character, so the length of the text is fuel
  enough.
\<close>

definition json_ws :: "char \<Rightarrow> bool" where
  "json_ws c \<longleftrightarrow> c = CHR '' '' \<or> c = CHR 0x09 \<or> c = CHR 0x0A \<or> c = CHR 0x0D"

definition skip_ws :: "string \<Rightarrow> string" where
  "skip_ws s = dropWhile json_ws s"

definition unescape :: "char \<Rightarrow> char option" where
  "unescape e =
     (if e = CHR 0x22 then Some (CHR 0x22)
      else if e = CHR 0x5C then Some (CHR 0x5C)
      else if e = CHR ''/'' then Some (CHR ''/'')
      else if e = CHR ''b'' then Some (CHR 0x08)
      else if e = CHR ''f'' then Some (CHR 0x0C)
      else if e = CHR ''n'' then Some (CHR 0x0A)
      else if e = CHR ''r'' then Some (CHR 0x0D)
      else if e = CHR ''t'' then Some (CHR 0x09)
      else None)"

fun scan_string :: "string \<Rightarrow> string \<Rightarrow> (string \<times> string) option" where
  \<comment> \<open>after the opening quote: the string read so far (reversed) and the input\<close>
  "scan_string acc [] = None"
| "scan_string acc (c # cs) =
     (if c = CHR 0x22 then Some (rev acc, cs)
      else if c = CHR 0x5C then
        (case cs of
           [] \<Rightarrow> None
         | e # cs' \<Rightarrow>
             (case unescape e of None \<Rightarrow> None | Some c' \<Rightarrow> scan_string (c' # acc) cs'))
      else if (of_char c :: nat) < 0x20 then None
      else scan_string (c # acc) cs)"

definition is_digit :: "char \<Rightarrow> bool" where
  "is_digit c \<longleftrightarrow> (48::nat) \<le> of_char c \<and> (of_char c :: nat) \<le> 57"

definition digits_val :: "string \<Rightarrow> nat" where
  "digits_val ds = foldl (\<lambda>a c. 10 * a + (of_char c - 48)) 0 ds"

definition scan_number :: "string \<Rightarrow> (json \<times> string) option" where
  "scan_number s =
     (let neg = (s \<noteq> [] \<and> hd s = CHR ''-'');
          s1 = (if neg then tl s else s);
          ds = takeWhile is_digit s1;
          rest = dropWhile is_digit s1
      in if ds = [] then None
         else if hd ds = CHR ''0'' \<and> 1 < length ds then None
         else if rest \<noteq> [] \<and> hd rest \<in> {CHR ''.'', CHR ''e'', CHR ''E''} then None
         else Some (JInt (if neg then - int (digits_val ds) else int (digits_val ds)), rest))"

fun parse_value :: "nat \<Rightarrow> string \<Rightarrow> (json \<times> string) option"
  and parse_elems :: "nat \<Rightarrow> json list \<Rightarrow> string \<Rightarrow> (json list \<times> string) option"
  and parse_members ::
    "nat \<Rightarrow> (string \<times> json) list \<Rightarrow> string \<Rightarrow> ((string \<times> json) list \<times> string) option"
where
  "parse_value 0 s = None"
| "parse_value (Suc n) [] = None"
| "parse_value (Suc n) (c # cs) =
     (if c = CHR ''{'' then
        (case skip_ws cs of
           [] \<Rightarrow> None
         | c' # r \<Rightarrow>
             if c' = CHR ''}'' then Some (JObj [], r)
             else map_option (\<lambda>(kvs, r'). (JObj kvs, r')) (parse_members n [] (c' # r)))
      else if c = CHR ''['' then
        (case skip_ws cs of
           [] \<Rightarrow> None
         | c' # r \<Rightarrow>
             if c' = CHR '']'' then Some (JArr [], r)
             else map_option (\<lambda>(xs, r'). (JArr xs, r')) (parse_elems n [] (c' # r)))
      else if c = CHR 0x22 then map_option (\<lambda>(s, r). (JStr s, r)) (scan_string [] cs)
      else if prefix ''true'' (c # cs) then Some (JBool True, drop 4 (c # cs))
      else if prefix ''false'' (c # cs) then Some (JBool False, drop 5 (c # cs))
      else if prefix ''null'' (c # cs) then Some (JNull, drop 4 (c # cs))
      else scan_number (c # cs))"
| "parse_elems 0 acc s = None"
| "parse_elems (Suc n) acc s =
     (case parse_value n s of
        None \<Rightarrow> None
      | Some (v, r) \<Rightarrow>
          (case skip_ws r of
             [] \<Rightarrow> None
           | c # r' \<Rightarrow>
               if c = CHR '','' then parse_elems n (acc @ [v]) (skip_ws r')
               else if c = CHR '']'' then Some (acc @ [v], r')
               else None))"
| "parse_members 0 acc s = None"
| "parse_members (Suc n) acc [] = None"
| "parse_members (Suc n) acc (c # cs) =
     (if c \<noteq> CHR 0x22 then None
      else
        (case scan_string [] cs of
           None \<Rightarrow> None
         | Some (k, r) \<Rightarrow>
             (case skip_ws r of
                [] \<Rightarrow> None
              | c1 # r1 \<Rightarrow>
                  if c1 \<noteq> CHR '':'' then None
                  else
                    (case parse_value n (skip_ws r1) of
                       None \<Rightarrow> None
                     | Some (v, r2) \<Rightarrow>
                         (case skip_ws r2 of
                            [] \<Rightarrow> None
                          | c2 # r3 \<Rightarrow>
                              if c2 = CHR '','' then parse_members n (dict_set acc k v) (skip_ws r3)
                              else if c2 = CHR ''}'' then Some (dict_set acc k v, r3)
                              else None)))))"

definition json_loads :: json_reader where
  "json_loads s =
     (case parse_value (Suc (length s)) (skip_ws s) of
        None \<Rightarrow> None
      | Some (v, r) \<Rightarrow> if skip_ws r = [] then Some v else None)"

section \<open>The block pattern\<close>

text \<open>
  \<open>tool_call_regex\<close> is \<open><tool_call>\s*(?P<json>.*?)\s*</tool_call>\<close> with
  \<open>DOTALL\<close>. Its matching is the backtracking search of the regex engine, written in
  continuation style: each piece takes the input and the matcher of what follows. A
  greedy \<open>\s*\<close> tries the longest run of white space first and gives characters back
  one at a time; the lazy group \<open>.*?\<close> tries the shortest text first and takes one
  more character (any character, with \<open>DOTALL\<close>) whenever the rest fails to match.
  A character of a text is one of the first 256 code points; among them \<open>\s\<close> matches
  \<open>[ \t\n\r\f\v]\<close>, U+0085 and U+00A0.
\<close>

definition is_space :: "char \<Rightarrow> bool" where
  "is_space c \<longleftrightarrow>
     c = CHR '' '' \<or> c = CHR 0x09 \<or> c = CHR 0x0A \<or> c = CHR 0x0B \<or> c = CHR 0x0C \<or> c = CHR 0x0D
     \<or> c = CHR 0x85 \<or> c = CHR 0xA0"

definition rx_lit :: "string \<Rightarrow> string \<Rightarrow> string option" where
  \<comment> \<open>a literal: the input after it\<close>
  "rx_lit pat s = (if prefix pat s then Some (drop (length pat) s) else None)"

fun rx_spaces :: "string \<Rightarrow> (string \<Rightarrow> 'a option) \<Rightarrow> 'a option" where
  \<comment> \<open>greedy \<open>\s*\<close>, then \<open>k\<close>\<close>
  "rx_spaces [] k = k []"
| "rx_spaces (c # cs) k =
     (if is_space c
      then (case rx_spaces cs k of Some r \<Rightarrow> Some r | None \<Rightarrow> k (c # cs))
      else k (c # cs))"

fun rx_lazy_any :: "string \<Rightarrow> string \<Rightarrow> (string \<Rightarrow> 'a option) \<Rightarrow> (string \<times> 'a) option" where
  \<comment> \<open>lazy \<open>(.*?)\<close>, then \<open>k\<close>: the captured text (\<open>acc\<close> holds it reversed) and the result of \<open>k\<close>\<close>
  "rx_lazy_any acc [] k = map_option (Pair (rev acc)) (k [])"
| "rx_lazy_any acc (c # cs) k =
     (case k (c # cs) of
        Some r \<Rightarrow> Some (rev acc, r)
      | None \<Rightarrow> rx_lazy_any (c # acc) cs k)"

definition tool_call_regex_match :: "string \<Rightarrow> (string \<times> string) option" where
  \<comment> \<open>a match starting at the head of the input: the group \<open>json\<close> and the input after the match\<close>
  "tool_call_regex_match s =
     (case rx_lit ''<tool_call>'' s of
        None \<Rightarrow> None
      | Some s1 \<Rightarrow>
          rx_spaces s1 (\<lambda>s2. rx_lazy_any [] s2 (\<lambda>s3. rx_spaces s3 (rx_lit ''</tool_call>''))))"

lemma rx_lit_length: "rx_lit pat s = Some r \<Longrightarrow> length r + length pat = length s"
  by (auto simp: rx_lit_def prefix_def split: if_splits)

lemma rx_spaces_length:
  assumes "rx_spaces s k = Some r" and "\<And>s' r'. k s' = Some r' \<Longrightarrow> m r' \<le> length s'"
  shows "m r \<le> length s"
  using assms(1)
proof (induction s)
  case Nil
  then show ?case using assms(2) by fastforce
next
  case (Cons c cs)
  then show ?case
    using assms(2) by (fastforce split: if_splits option.splits)
qed

lemma rx_lazy_any_length:
  assumes "rx_lazy_any acc s k = Some (g, r)" and "\<And>s' r'. k s' = Some r' \<Longrightarrow> m r' \<le> length s'"
  shows "m r \<le> length s"
  using assms(1)
proof (induction s arbitrary: acc)
  case Nil
  then show ?case using assms(2) by fastforce
next
  case (Cons c cs)
  then show ?case
    using assms(2) by (fastforce split: option.splits)
qed

lemma tool_call_regex_match_shorter:
  assumes "tool_call_regex_match s = Some (g, r)"
  shows "length r < length s"
proof -
  from assms obtain s1 where s1: "rx_lit ''<tool_call>'' s = Some s1"
    and m: "rx_spaces s1 (\<lambda>s2. rx_lazy_any [] s2 (\<lambda>s3. rx_spaces s3 (rx_lit ''</tool_call>''))) = Some (g, r)"
    by (auto simp: tool_call_regex_match_def split: option.splits)
  have e: "length r' \<le> length s'" if "rx_lit ''</tool_call>'' s' = Some r'" for s' r'
    using rx_lit_length [OF that] by simp
  have i: "length r' \<le> length s'" if "rx_spaces s' (rx_lit ''</tool_call>'') = Some r'" for s' r'
    using rx_spaces_length [OF that, of length] e by simp
  have l: "length (snd p) \<le> length s'"
    if "rx_lazy_any [] s' (\<lambda>s3. rx_spaces s3 (rx_lit ''</tool_call>'')) = Some p" for s' p
    using rx_lazy_any_length [of "[]" s' _ "fst p" "snd p" length] that i by simp
  have "length (snd (g, r)) \<le> length s1"
    using rx_spaces_length [OF m, of "\<lambda>p. length (snd p)"] l by simp
  with rx_lit_length [OF s1] show ?thesis by simp
qed

function findall :: "string \<Rightarrow> string list" where
  \<comment> \<open>\<open>tool_call_regex.findall\<close>: the groups of the non-overlapping matches, left to right\<close>
  "findall [] = []"
| "findall (c # cs) =
     (case tool_call_regex_match (c # cs) of
        Some (g, r) \<Rightarrow> g # findall r
      | None \<Rightarrow> findall cs)"
  by pat_completeness auto
termination
proof (relation "measure length")
  show "wf (measure length)" by simp
next
  fix c cs x2 x y
  assume "tool_call_regex_match (c # cs) = Some x2" "(x, y) = x2"
  then show "(y, c # cs) \<in> measure length"
    using tool_call_regex_match_shorter [of "c # cs" x y] by simp
next
  fix c cs
  assume "tool_call_regex_match (c # cs) = None"
  then show "(cs, c # cs) \<in> measure length" by simp
qed

section \<open>One-shot extraction\<close>

text \<open>
  \<open>FunctionCall\<close> has the fields \<open>name\<close> and \<open>arguments\<close>. A \<open>ToolCall\<close> adds the
  constant type \<open>"function"\<close> and a generated identifier, which carry no information of
  the text and are left out: a tool call is its function call.
\<close>

record function_call =
  name :: string
  arguments :: string

record extracted_tool_call_information =
  tools_called :: bool
  tool_calls :: "function_call list"
  content :: "string option"

text \<open>
  Modelled from the spec: the record type \<open>FunctionCall\<close> is declared outside the sources
  given; the spec gives it a \<open>name\<close> that is a string, so building it from a name of
  another JSON type fails, here as \<open>None\<close>, inside the \<open>try\<close> block. A payload that is
  not an object has no \<open>get\<close>, which fails there too.
\<close>

definition make_tool_call :: "json_reader \<Rightarrow> string \<Rightarrow> function_call option" where
  \<comment> \<open>the body of the loop over the matches; \<open>None\<close> when it raises\<close>
  "make_tool_call loads tool_call_json =
     (case loads tool_call_json of
        None \<Rightarrow> None
      | Some (JObj tool_call_dict) \<Rightarrow>
          (let args_str = json_dumps (dict_get tool_call_dict ''arguments'' (JObj []))
           in case dict_get tool_call_dict ''name'' (JStr []) of
                JStr n \<Rightarrow> Some \<lparr>name = n, arguments = args_str\<rparr>
              | _ \<Rightarrow> None)
      | Some _ \<Rightarrow> None)"

fun make_tool_calls :: "json_reader \<Rightarrow> string list \<Rightarrow> function_call list option" where
  \<comment> \<open>the loop: the calls in order, \<open>None\<close> as soon as one match raises\<close>
  "make_tool_calls loads [] = Some []"
| "make_tool_calls loads (j # js) =
     (case make_tool_call loads j of
        None \<Rightarrow> None
      | Some tc \<Rightarrow> map_option ((#) tc) (make_tool_calls loads js))"

definition py_find :: "string \<Rightarrow> string \<Rightarrow> int" where
  \<comment> \<open>\<open>s.find(pat)\<close> as Python returns it\<close>
  "py_find pat s = (case str_find pat s of None \<Rightarrow> - 1 | Some i \<Rightarrow> int i)"

definition py_find_from :: "string \<Rightarrow> string \<Rightarrow> int \<Rightarrow> int" where
  \<comment> \<open>\<open>s.find(pat, start)\<close> for \<open>0 \<le> start\<close>\<close>
  "py_find_from pat s start =
     (case str_find_from pat s (nat start) of None \<Rightarrow> - 1 | Some i \<Rightarrow> int i)"

definition slice_to :: "string \<Rightarrow> int \<Rightarrow> string" where
  \<comment> \<open>\<open>s[:i]\<close>; a negative index counts from the end\<close>
  "slice_to s i = (if i < 0 then take (length s - nat (- i)) s else take (nat i) s)"

definition slice_from :: "string \<Rightarrow> int \<Rightarrow> string" where
  \<comment> \<open>\<open>s[i:]\<close>\<close>
  "slice_from s i = (if i < 0 then drop (length s - nat (- i)) s else drop (nat i) s)"

definition extract_tool_calls :: "json_reader \<Rightarrow> string \<Rightarrow> extracted_tool_call_information" where
  "extract_tool_calls loads model_output =
     (let stripped_output = strip_think_tags model_output
      in if \<not> str_in tool_calls_start_token stripped_output
         then \<lparr>tools_called = False, tool_calls = [], content = Some stripped_output\<rparr>
         else
           (case make_tool_calls loads (findall stripped_output) of
              Some tcs \<Rightarrow>
                (let content =
                       rstrip_nl (slice_to stripped_output (py_find tool_calls_start_token stripped_output))
                 in \<lparr>tools_called = True, tool_calls = tcs, content = opt_content content\<rparr>)
            | None \<Rightarrow>
                \<lparr>tools_called = False, tool_calls = [], content = Some stripped_output\<rparr>))"

section \<open>Streaming extraction\<close>

text \<open>
  Modelled from the spec: the message types \<open>DeltaMessage\<close>, \<open>DeltaToolCall\<close> and
  \<open>DeltaFunctionCall\<close> are declared outside the sources given; by the spec an
  incremental result is an optional content fragment and a sequence of tool-call fragments,
  each an index, a name and an arguments text. So a \<open>DeltaToolCall\<close> is its index and its
  function call (its type is constant and its identifier is the generated one of the tool
  call), and a \<open>DeltaMessage\<close> is its content and its list of tool calls, empty when none
  is given.

  \<open>parser_state\<close> has the fields of the parser that the streaming method reads or writes
  (\<open>current_tool_name_sent\<close> is never used by it). The method returns a message,
  returns \<open>None\<close> (\<open>NoDelta\<close>), or fails in the unguarded \<open>json.loads\<close> of the emitted
  arguments (\<open>Raised\<close>); the state is then the one the parser has at that point. The
  texts and token ids the method is also given are not used by it.
\<close>

record parser_state =
  buffer :: string
  current_tool_id :: int
  prev_tool_call_arr :: "json list"
  streamed_args_for_tool :: "string list"

record delta_tool_call =
  index :: int
  func :: function_call

datatype delta_result =
    Raised
  | NoDelta
  | DeltaMessage "string option" "delta_tool_call list"

definition init_state :: parser_state where
  "init_state =
     \<lparr>buffer = [], current_tool_id = - 1, prev_tool_call_arr = [], streamed_args_for_tool = []\<rparr>"

function pad_to :: "'a list \<Rightarrow> int \<Rightarrow> 'a \<Rightarrow> 'a list" where
  \<comment> \<open>\<open>while len(xs) <= i: xs.append(d)\<close>\<close>
  "pad_to xs i d = (if int (length xs) \<le> i then pad_to (xs @ [d]) i d else xs)"
  by pat_completeness auto
termination
  by (relation "measure (\<lambda>(xs, i, d). nat (i + 1 - int (length xs)))") auto

definition extract_tool_calls_streaming ::
  "json_reader \<Rightarrow> string \<Rightarrow> parser_state \<Rightarrow> delta_result \<times> parser_state" where
  "extract_tool_calls_streaming loads delta_text st =
     (let delta_text = strip_think_tags delta_text;
          cur_text = buffer st @ delta_text;
          st = st\<lparr>buffer := cur_text\<rparr>;
          start_idx = py_find tool_call_start_token cur_text
      in if start_idx = - 1 then
           (let cur_text = (if 0 < current_tool_id st then [] else cur_text)
            in (DeltaMessage (opt_content cur_text) [], st\<lparr>buffer := []\<rparr>))
         else
           (let end_idx = py_find_from tool_call_end_token cur_text start_idx
            in if end_idx \<noteq> - 1 then
                 (let st = (if current_tool_id st = - 1
                            then st\<lparr>current_tool_id := 0, prev_tool_call_arr := [],
                                    streamed_args_for_tool := []\<rparr>
                            else st);
                      st = st\<lparr>prev_tool_call_arr :=
                                 pad_to (prev_tool_call_arr st) (current_tool_id st) (JObj [])\<rparr>;
                      st = st\<lparr>streamed_args_for_tool :=
                                 pad_to (streamed_args_for_tool st) (current_tool_id st) []\<rparr>;
                      extracted_tool_calls =
                        extract_tool_calls loads
                          (slice_to cur_text (end_idx + int (length tool_call_end_token)))
                  in case tool_calls extracted_tool_calls of
                       [] \<Rightarrow> (NoDelta, st)
                     | tool_call # _ \<Rightarrow>
                         (case loads (arguments tool_call) of
                            None \<Rightarrow> (Raised, st)
                          | Some args \<Rightarrow>
                              (let st = st\<lparr>prev_tool_call_arr :=
                                         (prev_tool_call_arr st)
                                           [nat (current_tool_id st) :=
                                              JObj [(''name'', JStr (name tool_call)),
                                                    (''arguments'', args)]]\<rparr>;
                                   st = st\<lparr>streamed_args_for_tool :=
                                         (streamed_args_for_tool st)
                                           [nat (current_tool_id st) := arguments tool_call]\<rparr>;
                                   delta =
                                     DeltaMessage (content extracted_tool_calls)
                                       [\<lparr>index = current_tool_id st, func = tool_call\<rparr>];
                                   st = st\<lparr>current_tool_id := current_tool_id st + 1\<rparr>;
                                   st = st\<lparr>buffer :=
                                         slice_from cur_text
                                           (end_idx + int (length tool_call_end_token))\<rparr>
                               in (delta, st))))
               else
                 (let st = st\<lparr>buffer := slice_from cur_text start_idx\<rparr>;
                      content = rstrip_nl (slice_to cur_text start_idx)
                  in (DeltaMessage (opt_content content) [], st))))"

text \<open>
  A session: the fragments are fed in order to one parser, each call starting from the
  state the call before left. \<open>session\<close> gives the results in order, \<open>session_state\<close>
  the state after the last call.
\<close>

fun session :: "json_reader \<Rightarrow> parser_state \<Rightarrow> string list \<Rightarrow> delta_result list" where
  "session loads st [] = []"
| "session loads st (d # ds) =
     (case extract_tool_calls_streaming loads d st of
        (r, st') \<Rightarrow> r # session loads st' ds)"

fun session_state :: "json_reader \<Rightarrow> parser_state \<Rightarrow> string list \<Rightarrow> parser_state" where
  "session_state loads st [] = st"
| "session_state loads st (d # ds) =
     session_state loads (snd (extract_tool_calls_streaming loads d st)) ds"

fun delta_calls :: "delta_result \<Rightarrow> delta_tool_call list" where
  "delta_calls (DeltaMessage c tcs) = tcs"
| "delta_calls _ = []"

fun delta_content :: "delta_result \<Rightarrow> string option" where
  "delta_content (DeltaMessage c tcs) = c"
| "delta_content _ = None"

definition emitted_calls :: "delta_result list \<Rightarrow> delta_tool_call list" where
  \<comment> \<open>the tool-call fragments of a session, in emission order\<close>
  "emitted_calls rs = concat (map delta_calls rs)"

section \<open>Texts built from well-formed blocks\<close>

text \<open>
  A block of the input format, with the white space \<open>sep\<close> that precedes it: the start
  marker, white space, the payload, white space, the end marker. \<open>fname\<close> and \<open>fargs\<close>
  are the name and the arguments of the JSON object that the payload denotes. The
  payload of a well-formed block is the JSON text itself (no white space around it) and
  does not contain the end marker.
\<close>

record block =
  sep :: string
  lead :: string
  payload :: string
  trail :: string
  fname :: string
  fargs :: json

definition block_text :: "block \<Rightarrow> string" where
  "block_text b = tool_call_start_token @ lead b @ payload b @ trail b @ tool_call_end_token"

definition blocks_text :: "block list \<Rightarrow> string" where
  "blocks_text bs = concat (map (\<lambda>b. sep b @ block_text b) bs)"

definition well_formed_block :: "json_reader \<Rightarrow> block \<Rightarrow> bool" where
  "well_formed_block loads b \<longleftrightarrow>
     (\<forall>c\<in>set (sep b). is_space c) \<and>
     (\<forall>c\<in>set (lead b). is_space c) \<and>
     (\<forall>c\<in>set (trail b). is_space c) \<and>
     payload b \<noteq> [] \<and> \<not> is_space (hd (payload b)) \<and> \<not> is_space (last (payload b)) \<and>
     \<not> str_in tool_call_end_token (payload b) \<and>
     (\<exists>d. loads (payload b) = Some (JObj d) \<and>
          map_of d ''name'' = Some (JStr (fname b)) \<and>
          map_of d ''arguments'' = Some (fargs b))"

definition call_of :: "block \<Rightarrow> function_call" where
  "call_of b = \<lparr>name = fname b, arguments = json_dumps (fargs b)\<rparr>"

text \<open>The two blocks of the repository's test of several calls.\<close>

definition weather_block :: block where
  \<open>weather_block =
     \<lparr>sep = [], lead = ''\<newline>'',
      payload = ''{"name": "get_weather", "arguments": {"location": "Paris"}}'',
      trail = ''\<newline>'', fname = ''get_weather'',
      fargs = JObj [(''location'', JStr ''Paris'')]\<rparr>\<close>

definition time_block :: block where
  \<open>time_block =
     \<lparr>sep = ''\<newline>'', lead = ''\<newline>'',
      payload = ''{"name": "get_time", "arguments": {"timezone": "UTC"}}'',
      trail = ''\<newline>'', fname = ''get_time'',
      fargs = JObj [(''timezone'', JStr ''UTC'')]\<rparr>\<close>

section \<open>Spans and fragment boundaries\<close>




section \<open>Derived notions of a streaming session\<close>

text \<open>
  \<open>prepared st cur\<close> is the state in which the method calls \<open>extract_tool_calls\<close> on
  a span: the buffer holds the text \<open>cur\<close>, the counter has left its sentinel, and both
  lists reach the counter. \<open>next_index\<close> is the index that the next emitted call gets.
  \<open>zero_call_span loads cur\<close> says that \<open>cur\<close> holds a start marker and an end marker
  after it, and that extraction on the text through that end marker gives no call.
\<close>

definition prepared :: "parser_state \<Rightarrow> string \<Rightarrow> parser_state" where
  "prepared st cur =
     (if current_tool_id st = - 1
      then st\<lparr>buffer := cur, current_tool_id := 0,
              prev_tool_call_arr := pad_to [] 0 (JObj []),
              streamed_args_for_tool := pad_to [] 0 []\<rparr>
      else st\<lparr>buffer := cur,
              prev_tool_call_arr := pad_to (prev_tool_call_arr st) (current_tool_id st) (JObj []),
              streamed_args_for_tool := pad_to (streamed_args_for_tool st) (current_tool_id st) []\<rparr>)"

definition next_index :: "parser_state \<Rightarrow> int" where
  "next_index st = (if current_tool_id st = - 1 then 0 else current_tool_id st)"

definition zero_call_span :: "json_reader \<Rightarrow> string \<Rightarrow> bool" where
  "zero_call_span loads cur \<longleftrightarrow>
     (\<exists>i e. str_find tool_call_start_token cur = Some i
          \<and> str_find_from tool_call_end_token cur i = Some e
          \<and> tool_calls (extract_tool_calls loads (take (e + length tool_call_end_token) cur)) = [])"

declare pad_to.simps [simp del]
declare nat_repr.simps [simp del]

section \<open>Facts about searching\<close>

lemma all_le_Suc: "(\<forall>j\<le>Suc n. Q j) \<longleftrightarrow> (Q 0 \<and> (\<forall>j\<le>n. Q (Suc j)))"
proof
  assume a: "\<forall>j\<le>Suc n. Q j"
  then show "Q 0 \<and> (\<forall>j\<le>n. Q (Suc j))" by simp
next
  assume a: "Q 0 \<and> (\<forall>j\<le>n. Q (Suc j))"
  show "\<forall>j\<le>Suc n. Q j"
  proof (intro allI impI)
    fix j assume "j \<le> Suc n"
    then show "Q j" using a by (cases j) simp_all
  qed
qed

lemma str_find_Some_iff:
  "str_find pat s = Some i \<longleftrightarrow>
     (i \<le> length s \<and> prefix pat (drop i s) \<and> (\<forall>j<i. \<not> prefix pat (drop j s)))"
proof (induction s arbitrary: i)
  case Nil
  then show ?case by auto
next
  case (Cons c cs)
  show ?case
  proof (cases "prefix pat (c # cs)")
    case True
    then show ?thesis
      by (cases i) auto
  next
    case False
    show ?thesis
    proof (cases i)
      case 0
      with False show ?thesis by simp
    next
      case (Suc k)
      have "(\<forall>j<Suc k. \<not> prefix pat (drop j (c # cs))) \<longleftrightarrow> (\<forall>j<k. \<not> prefix pat (drop j cs))"
        using False by (auto simp: less_Suc_eq_0_disj)
      with False Suc Cons.IH [of k] show ?thesis by auto
    qed
  qed
qed

lemma str_find_None_iff:
  "str_find pat s = None \<longleftrightarrow> (\<forall>j\<le>length s. \<not> prefix pat (drop j s))"
proof (induction s)
  case Nil
  then show ?case by auto
next
  case (Cons c cs)
  have "(\<forall>j\<le>length (c # cs). \<not> prefix pat (drop j (c # cs))) \<longleftrightarrow>
        (\<not> prefix pat (c # cs) \<and> (\<forall>j\<le>length cs. \<not> prefix pat (drop j cs)))"
    using all_le_Suc [of "length cs" "\<lambda>j. \<not> prefix pat (drop j (c # cs))"] by simp
  with Cons show ?case by simp
qed

lemma str_in_iff_sublist: "str_in pat s \<longleftrightarrow> sublist pat s"
proof
  assume "str_in pat s"
  then obtain i where "str_find pat s = Some i"
    by (auto simp: str_in_def)
  then have "prefix pat (drop i s)"
    by (simp add: str_find_Some_iff)
  then obtain v where "drop i s = pat @ v"
    by (auto simp: prefix_def)
  then have "s = take i s @ pat @ v"
    by (metis append_take_drop_id)
  then show "sublist pat s"
    unfolding sublist_def by blast
next
  assume "sublist pat s"
  then obtain u v where s: "s = u @ pat @ v"
    by (auto simp: sublist_def)
  have "prefix pat (drop (length u) s)" "length u \<le> length s"
    by (simp_all add: s)
  then have "str_find pat s \<noteq> None"
    by (auto simp: str_find_None_iff)
  then show "str_in pat s"
    by (simp add: str_in_def)
qed

lemma str_remove_id: "\<not> sublist old s \<Longrightarrow> str_remove old s = s"
proof (induction s)
  case Nil
  then show ?case by simp
next
  case (Cons c cs)
  from Cons.prems have "\<not> prefix old (c # cs)"
    using prefix_imp_sublist by blast
  moreover from Cons.prems have "\<not> sublist old cs"
    by (meson sublist_Cons_right)
  ultimately show ?case
    using Cons.IH by simp
qed

lemma prefix_append_short: "prefix p (a @ b) \<Longrightarrow> length p \<le> length a \<Longrightarrow> prefix p a"
  by (metis prefix_length_prefix prefixI prefix_order.dual_order.refl append_prefixD prefix_append prefix_def length_append le_add1)

lemma str_find_bound: "str_find pat s = Some i \<Longrightarrow> i + length pat \<le> length s"
proof -
  assume "str_find pat s = Some i"
  then have "i \<le> length s" "prefix pat (drop i s)"
    by (simp_all add: str_find_Some_iff)
  then have "length pat \<le> length s - i"
    using prefix_length_le by fastforce
  with \<open>i \<le> length s\<close> show ?thesis by simp
qed

lemma str_find_append: "str_find pat s = Some i \<Longrightarrow> str_find pat (s @ t) = Some i"
proof (induction s arbitrary: i)
  case Nil
  then show ?case by (cases t) (auto split: if_splits)
next
  case (Cons c cs)
  show ?case
  proof (cases "prefix pat (c # cs)")
    case True
    with Cons.prems have "i = 0" by simp
    moreover from True have "prefix pat (c # cs @ t)"
      by (metis append_Cons prefix_prefix)
    ultimately show ?thesis by simp
  next
    case False
    with Cons.prems obtain k where k: "str_find pat cs = Some k" "i = Suc k"
      by auto
    from str_find_bound [OF k(1)] have "length pat \<le> length (c # cs)" by simp
    with False have "\<not> prefix pat ((c # cs) @ t)"
      using prefix_append_short by blast
    with k Cons.IH [OF k(1)] show ?thesis by simp
  qed
qed

text \<open>
  A pattern whose first character occurs nowhere else in it cannot overlap itself: its
  first occurrence in \<open>u @ pat @ v\<close> is at \<open>length u\<close> when \<open>u\<close> has none.
\<close>

lemma str_find_first_occurrence:
  assumes "h \<notin> set t" and "\<not> sublist (h # t) u"
  shows "str_find (h # t) (u @ (h # t) @ v) = Some (length u)"
  using assms(2)
proof (induction u)
  case Nil
  then show ?case by simp
next
  case (Cons a u)
  from Cons.prems have nu: "\<not> sublist (h # t) u"
    by (meson sublist_Cons_right)
  have "\<not> prefix (h # t) ((a # u) @ (h # t) @ v)"
  proof
    assume p: "prefix (h # t) ((a # u) @ (h # t) @ v)"
    then have pt: "prefix t (u @ (h # t) @ v)" by auto
    show False
    proof (cases "length t \<le> length u")
      case True
      with pt have "prefix t u" using prefix_append_short by blast
      with p have "prefix (h # t) (a # u)" by simp
      with Cons.prems show False using prefix_imp_sublist by blast
    next
      case False
      then have l: "length u < length t" by simp
      from pt obtain w where w: "u @ (h # t) @ v = t @ w" by (auto simp: prefix_def)
      then have "(u @ (h # t) @ v) ! length u = (t @ w) ! length u" by simp
      with l have "h = t ! length u" by (simp add: nth_append)
      with l assms(1) show False by (metis nth_mem)
    qed
  qed
  with Cons.IH [OF nu] show ?case by simp
qed

lemma str_remove_length_le: "length (str_remove old s) \<le> length s"
proof (induction old s rule: str_remove.induct)
  case (1 old)
  then show ?case by simp
next
  case (2 old c cs)
  show ?case
  proof (cases "old \<noteq> [] \<and> prefix old (c # cs)")
    case True
    from "2.IH"(1) [OF True]
    have "length (str_remove old (drop (length old) (c # cs))) \<le> length (drop (length old) (c # cs))" .
    also have "\<dots> \<le> length (c # cs)" by simp
    finally show ?thesis using True by simp
  next
    case False
    with "2.IH"(2) show ?thesis by auto
  qed
qed

lemma str_remove_shorter:
  "old \<noteq> [] \<Longrightarrow> sublist old s \<Longrightarrow> length (str_remove old s) < length s"
proof (induction old s rule: str_remove.induct)
  case (1 old)
  then show ?case by simp
next
  case (2 old c cs)
  show ?case
  proof (cases "prefix old (c # cs)")
    case True
    have "length (str_remove old (drop (length old) (c # cs))) \<le> length (drop (length old) (c # cs))"
      by (rule str_remove_length_le)
    also have "\<dots> < length (c # cs)"
      using \<open>old \<noteq> []\<close> by simp
    finally show ?thesis using True \<open>old \<noteq> []\<close> by simp
  next
    case False
    with "2.prems" have "sublist old cs"
      by (simp add: sublist_Cons_right)
    with "2.IH"(2) "2.prems"(1) False show ?thesis by simp
  qed
qed

section \<open>Facts about the block pattern\<close>

lemma sublist_spaces_left:
  assumes "pat \<noteq> []" "\<not> is_space (hd pat)" "\<forall>c\<in>set w. is_space c" "sublist pat (w @ s)"
  shows "sublist pat s"
  using assms(3,4)
proof (induction w)
  case Nil
  then show ?case by simp
next
  case (Cons c w)
  from Cons.prems(1) have c: "is_space c" and w: "\<forall>c\<in>set w. is_space c" by simp_all
  from assms(1,2) c have "\<not> prefix pat (c # w @ s)"
    by (cases pat) auto
  with Cons.prems(2) have "sublist pat (w @ s)"
    by (simp add: sublist_Cons_right)
  with Cons.IH w show ?case by blast
qed

lemma sublist_spaces_right:
  assumes "pat \<noteq> []" "\<not> is_space (last pat)" "\<forall>c\<in>set w. is_space c" "sublist pat (s @ w)"
  shows "sublist pat s"
proof -
  from assms(4) have "sublist (rev pat) (rev w @ rev s)"
    by (metis rev_append sublist_rev)
  moreover have "rev pat \<noteq> []" "\<not> is_space (hd (rev pat))" "\<forall>c\<in>set (rev w). is_space c"
    using assms(1-3) by (simp_all add: hd_rev)
  ultimately have "sublist (rev pat) (rev s)"
    using sublist_spaces_left by blast
  then show ?thesis by simp
qed

lemma append_eq_last_in_left:
  assumes "a @ y = w @ x" and "a \<noteq> []" and "length a \<le> length w"
  shows "last a \<in> set w"
proof -
  from assms(1) have "take (length a) (a @ y) = take (length a) (w @ x)" by simp
  with assms(3) have "a = take (length a) w" by simp
  then have "set a \<subseteq> set w" by (metis set_take_subset)
  with assms(2) show ?thesis using last_in_set by blast
qed

lemma rx_spaces_greedy:
  assumes "\<forall>c\<in>set w. is_space c" and "x = [] \<or> \<not> is_space (hd x)" and "k x = Some r"
  shows "rx_spaces (w @ x) k = Some r"
  using assms(1)
proof (induction w)
  case Nil
  with assms(2,3) show ?case by (cases x) auto
next
  case (Cons c w)
  then show ?case by simp
qed

lemma rx_spaces_sound:
  "rx_spaces s k = Some r \<Longrightarrow> \<exists>w x. s = w @ x \<and> (\<forall>c\<in>set w. is_space c) \<and> k x = Some r"
proof (induction s)
  case Nil
  then show ?case by simp
next
  case (Cons c cs)
  show ?case
  proof (cases "is_space c \<and> rx_spaces cs k \<noteq> None")
    case True
    with Cons.prems have "rx_spaces cs k = Some r" by auto
    from Cons.IH [OF this] obtain w x where "cs = w @ x" "\<forall>c\<in>set w. is_space c" "k x = Some r"
      by blast
    with True have "c # cs = (c # w) @ x \<and> (\<forall>c\<in>set (c # w). is_space c) \<and> k x = Some r"
      by simp
    then show ?thesis by blast
  next
    case False
    with Cons.prems have "k (c # cs) = Some r"
      by (auto split: if_splits option.splits)
    then have "c # cs = [] @ (c # cs) \<and> (\<forall>c\<in>set []. is_space c) \<and> k (c # cs) = Some r"
      by simp
    then show ?thesis by blast
  qed
qed

lemma rx_lazy_any_sound:
  "rx_lazy_any acc s k = Some (g, r) \<Longrightarrow> \<exists>a x. s = a @ x \<and> g = rev acc @ a \<and> k x = Some r"
proof (induction s arbitrary: acc)
  case Nil
  then show ?case by auto
next
  case (Cons c cs)
  show ?case
  proof (cases "k (c # cs)")
    case (Some r')
    with Cons.prems have "g = rev acc" "r' = r" by simp_all
    with Some have "c # cs = [] @ (c # cs) \<and> g = rev acc @ [] \<and> k (c # cs) = Some r" by simp
    then show ?thesis by blast
  next
    case None
    with Cons.prems have "rx_lazy_any (c # acc) cs k = Some (g, r)" by simp
    from Cons.IH [OF this] obtain a x where "cs = a @ x" "g = rev (c # acc) @ a" "k x = Some r"
      by blast
    then have "c # cs = (c # a) @ x \<and> g = rev acc @ (c # a) \<and> k x = Some r" by simp
    then show ?thesis by blast
  qed
qed

lemma rx_lazy_any_first:
  assumes "\<forall>p<length g. k (drop p (g @ x)) = None" and "k x = Some r"
  shows "rx_lazy_any acc (g @ x) k = Some (rev acc @ g, r)"
  using assms(1)
proof (induction g arbitrary: acc)
  case Nil
  with assms(2) show ?case by (cases x) auto
next
  case (Cons a g)
  from Cons.prems have "k (a # g @ x) = None" by force
  moreover from Cons.prems have "\<forall>p<length g. k (drop p (g @ x)) = None" by force
  ultimately show ?case using Cons.IH [of "a # acc"] by simp
qed

lemma tool_call_regex_match_sound:
  assumes "tool_call_regex_match s = Some (g, r)"
  shows "\<exists>a. s = ''<tool_call>'' @ a @ ''</tool_call>'' @ r"
proof -
  let ?k3 = "\<lambda>s3. rx_spaces s3 (rx_lit ''</tool_call>'')"
  let ?k2 = "\<lambda>s2. rx_lazy_any [] s2 ?k3"
  from assms obtain s1 where s1: "rx_lit ''<tool_call>'' s = Some s1"
    and m: "rx_spaces s1 ?k2 = Some (g, r)"
    by (auto simp: tool_call_regex_match_def split: option.splits)
  from s1 have s: "s = ''<tool_call>'' @ s1"
    by (auto simp: rx_lit_def prefix_def split: if_splits)
  from rx_spaces_sound [OF m] obtain w x where wx: "s1 = w @ x" "?k2 x = Some (g, r)"
    by blast
  from rx_lazy_any_sound [OF wx(2)] obtain a y where ay: "x = a @ y" "?k3 y = Some r"
    by blast
  from rx_spaces_sound [OF ay(2)] obtain w' z where wz: "y = w' @ z" "rx_lit ''</tool_call>'' z = Some r"
    by blast
  from wz(2) have z: "z = ''</tool_call>'' @ r"
    by (auto simp: rx_lit_def prefix_def split: if_splits)
  have "s = ''<tool_call>'' @ (w @ a @ w') @ ''</tool_call>'' @ r"
    unfolding s wx(1) ay(1) wz(1) z by simp
  then show ?thesis by blast
qed

lemma tool_call_regex_match_block:
  assumes w1: "\<forall>c\<in>set w1. is_space c" and w2: "\<forall>c\<in>set w2. is_space c"
    and g: "g \<noteq> []" "\<not> is_space (hd g)" "\<not> is_space (last g)"
    and ne: "\<not> sublist ''</tool_call>'' g"
  shows "tool_call_regex_match (''<tool_call>'' @ w1 @ g @ w2 @ ''</tool_call>'' @ rest) = Some (g, rest)"
proof -
  let ?e = "''</tool_call>''"
  let ?k3 = "\<lambda>s3. rx_spaces s3 (rx_lit ?e)"
  let ?k2 = "\<lambda>s2. rx_lazy_any [] s2 ?k3"
  have lit: "rx_lit ?e (?e @ rest) = Some rest"
    by (simp add: rx_lit_def)
  have a: "?k3 (w2 @ ?e @ rest) = Some rest"
    using rx_spaces_greedy [of w2 "?e @ rest" "rx_lit ?e" rest] w2 lit
    by (simp add: is_space_def)
  have b: "\<forall>p<length g. ?k3 (drop p (g @ (w2 @ ?e @ rest))) = None"
  proof (intro allI impI)
    fix p assume p: "p < length g"
    let ?g' = "drop p g"
    from p have g': "?g' \<noteq> []" "last ?g' = last g" by simp_all
    show "?k3 (drop p (g @ (w2 @ ?e @ rest))) = None"
    proof (rule ccontr)
      assume "?k3 (drop p (g @ (w2 @ ?e @ rest))) \<noteq> None"
      then obtain r' where "?k3 (?g' @ w2 @ ?e @ rest) = Some r'"
        using p by auto
      from rx_spaces_sound [OF this] obtain w x where wx:
        "?g' @ w2 @ ?e @ rest = w @ x" "\<forall>c\<in>set w. is_space c" "rx_lit ?e x = Some r'"
        by blast
      from wx(3) have x: "x = ?e @ r'"
        by (auto simp: rx_lit_def prefix_def split: if_splits)
      show False
      proof (cases "length ?g' \<le> length w")
        case True
        have "last ?g' \<in> set w"
          using append_eq_last_in_left [OF wx(1) g'(1) True] .
        then show False using wx(2) g'(2) g(3) by auto
      next
        case False
        then have lw: "length w < length (?g' @ w2)" by simp
        have "\<not> sublist ?e ?g'"
          using ne by (meson sublist_drop sublist_order.order.trans)
        then have "\<not> sublist ?e (?g' @ w2)"
          using sublist_spaces_right [of ?e w2 ?g'] w2 by (auto simp: is_space_def)
        then have "str_find (CHR ''<'' # ''/tool_call>'') ((?g' @ w2) @ (CHR ''<'' # ''/tool_call>'') @ rest)
                     = Some (length (?g' @ w2))"
          by (intro str_find_first_occurrence) simp_all
        then have "\<not> prefix ?e (drop (length w) ((?g' @ w2) @ ?e @ rest))"
          using lw unfolding str_find_Some_iff by blast
        moreover have "drop (length w) ((?g' @ w2) @ ?e @ rest) = ?e @ r'"
          using wx(1) x by (metis append.assoc append_eq_conv_conj)
        ultimately show False by simp
      qed
    qed
  qed
  have c: "?k2 (g @ w2 @ ?e @ rest) = Some (g, rest)"
    using rx_lazy_any_first [OF b a, of "[]"] by simp
  have d: "rx_spaces (w1 @ (g @ w2 @ ?e @ rest)) ?k2 = Some (g, rest)"
    using rx_spaces_greedy [of w1 "g @ w2 @ ?e @ rest" ?k2 "(g, rest)"] w1 c g
    by (cases g) auto
  have "rx_lit ''<tool_call>'' (''<tool_call>'' @ w1 @ g @ w2 @ ?e @ rest) = Some (w1 @ g @ w2 @ ?e @ rest)"
    by (simp add: rx_lit_def)
  with d show ?thesis
    unfolding tool_call_regex_match_def by (simp del: append.simps)
qed

section \<open>Facts about one-shot extraction\<close>

lemma tool_call_regex_match_Nil: "tool_call_regex_match [] = None"
  by (simp add: tool_call_regex_match_def rx_lit_def)

lemma findall_match: "tool_call_regex_match s = Some (g, r) \<Longrightarrow> findall s = g # findall r"
  by (cases s) (simp_all add: tool_call_regex_match_Nil)

lemma findall_skip: "\<forall>c\<in>set w. c \<noteq> CHR ''<'' \<Longrightarrow> findall (w @ s) = findall s"
proof (induction w)
  case Nil
  then show ?case by simp
next
  case (Cons c w)
  then have "rx_lit ''<tool_call>'' (c # w @ s) = None"
    by (auto simp: rx_lit_def)
  then have "tool_call_regex_match (c # w @ s) = None"
    by (simp add: tool_call_regex_match_def)
  with Cons show ?case by simp
qed

lemma findall_no_span:
  assumes "\<nexists>a b c. s = a @ ''<tool_call>'' @ b @ ''</tool_call>'' @ c"
  shows "findall s = []"
  using assms
proof (induction s rule: findall.induct)
  case 1
  then show ?case by simp
next
  case (2 c cs)
  have n: "tool_call_regex_match (c # cs) = None"
  proof (rule ccontr)
    assume "tool_call_regex_match (c # cs) \<noteq> None"
    then obtain g r where "tool_call_regex_match (c # cs) = Some (g, r)" by auto
    from tool_call_regex_match_sound [OF this] obtain a where
      "c # cs = [] @ ''<tool_call>'' @ a @ ''</tool_call>'' @ r" by auto
    with "2.prems" show False by blast
  qed
  have "\<nexists>a b d. cs = a @ ''<tool_call>'' @ b @ ''</tool_call>'' @ d"
  proof
    assume "\<exists>a b d. cs = a @ ''<tool_call>'' @ b @ ''</tool_call>'' @ d"
    then obtain a b d where "cs = a @ ''<tool_call>'' @ b @ ''</tool_call>'' @ d" by blast
    then have "c # cs = (c # a) @ ''<tool_call>'' @ b @ ''</tool_call>'' @ d" by simp
    with "2.prems" show False by blast
  qed
  with "2.IH"(1) [OF n] n show ?case by simp
qed

lemma space_not_lt: "is_space c \<Longrightarrow> c \<noteq> CHR ''<''"
  by (auto simp: is_space_def)

lemma dict_get_map_of: "dict_get d k x = (case map_of d k of None \<Rightarrow> x | Some v \<Rightarrow> v)"
  by (induction d) auto

lemma make_tool_call_well_formed:
  assumes "well_formed_block loads b"
  shows "make_tool_call loads (payload b) = Some (call_of b)"
  using assms by (auto simp: well_formed_block_def make_tool_call_def call_of_def dict_get_map_of)

lemma make_tool_calls_well_formed:
  assumes "\<forall>b\<in>set bs. well_formed_block loads b"
  shows "make_tool_calls loads (map payload bs) = Some (map call_of bs)"
  using assms by (induction bs) (simp_all add: make_tool_call_well_formed)

lemma findall_block:
  assumes "well_formed_block loads b"
  shows "findall (sep b @ block_text b @ rest) = payload b # findall rest"
proof -
  from assms have ne: "\<not> sublist ''</tool_call>'' (payload b)"
    by (simp add: well_formed_block_def str_in_iff_sublist tool_call_end_token_def)
  have "tool_call_regex_match (''<tool_call>'' @ lead b @ payload b @ trail b @ ''</tool_call>'' @ rest)
          = Some (payload b, rest)"
    using assms ne by (intro tool_call_regex_match_block) (simp_all add: well_formed_block_def)
  then have "findall (block_text b @ rest) = payload b # findall rest"
    using findall_match by (simp add: block_text_def tool_call_start_token_def tool_call_end_token_def)
  moreover have "findall (sep b @ block_text b @ rest) = findall (block_text b @ rest)"
    using assms by (intro findall_skip) (auto simp: well_formed_block_def space_not_lt)
  ultimately show ?thesis by simp
qed

lemma findall_blocks:
  assumes "\<forall>b\<in>set bs. well_formed_block loads b" and "\<forall>c\<in>set trailing. is_space c"
  shows "findall (blocks_text bs @ trailing) = map payload bs"
  using assms(1)
proof (induction bs)
  case Nil
  have "findall (trailing @ []) = findall []"
    using assms(2) by (intro findall_skip) (auto simp: space_not_lt)
  then show ?case by (simp add: blocks_text_def)
next
  case (Cons b bs)
  then have "findall (sep b @ block_text b @ (blocks_text bs @ trailing))
               = payload b # findall (blocks_text bs @ trailing)"
    using findall_block [of loads b] by simp
  with Cons show ?case by (simp add: blocks_text_def)
qed


lemma drop_append_le: "n \<le> length x \<Longrightarrow> drop n (x @ y) = drop n x @ y"
  by simp

lemma strip_think_tags_id:
  assumes "\<not> str_in ''<think>'' s" and "\<not> str_in ''</think>'' s"
  shows "strip_think_tags s = s"
  using assms by (simp add: strip_think_tags_def str_remove_id str_in_iff_sublist)

lemma not_sublist_head: "\<forall>c\<in>set w. c \<noteq> h \<Longrightarrow> \<not> sublist (h # t) w"
  using set_mono_sublist by fastforce

lemma str_find_start_token:
  assumes "\<not> str_in tool_call_start_token u"
  shows "str_find tool_call_start_token (u @ tool_call_start_token @ v) = Some (length u)"
proof -
  from assms have "\<not> sublist (CHR ''<'' # ''tool_call>'') u"
    by (simp add: str_in_iff_sublist tool_call_start_token_def)
  then have "str_find (CHR ''<'' # ''tool_call>'') (u @ (CHR ''<'' # ''tool_call>'') @ v) = Some (length u)"
    by (intro str_find_first_occurrence) simp_all
  then show ?thesis by (simp add: tool_call_start_token_def)
qed

lemma str_in_spaces: "\<forall>c\<in>set w. is_space c \<Longrightarrow> \<not> str_in tool_call_start_token w"
  using not_sublist_head [of w "CHR ''<''" "''tool_call>''"]
  by (auto simp: str_in_iff_sublist tool_call_start_token_def space_not_lt)

lemma make_tool_calls_None:
  "j \<in> set js \<Longrightarrow> make_tool_call loads j = None \<Longrightarrow> make_tool_calls loads js = None"
  by (induction js) (auto split: option.splits)

lemma make_tool_call_loads_None: "loads j = None \<Longrightarrow> make_tool_call loads j = None"
  by (simp add: make_tool_call_def)

lemma opt_content_not_empty: "opt_content s \<noteq> Some []"
  by (simp add: opt_content_def)

lemma json_loads_weather:
  \<open>json_loads ''{"name": "get_weather", "arguments": {"location": "Paris"}}'' =
     Some (JObj [(''name'', JStr ''get_weather''),
                 (''arguments'', JObj [(''location'', JStr ''Paris'')])])\<close>
  by code_simp

lemma json_loads_time:
  \<open>json_loads ''{"name": "get_time", "arguments": {"timezone": "UTC"}}'' =
     Some (JObj [(''name'', JStr ''get_time''),
                 (''arguments'', JObj [(''timezone'', JStr ''UTC'')])])\<close>
  by code_simp

lemma well_formed_weather_block: "well_formed_block json_loads weather_block"
  unfolding well_formed_block_def weather_block_def
  by (simp add: json_loads_weather is_space_def str_in_def tool_call_end_token_def)

lemma well_formed_time_block: "well_formed_block json_loads time_block"
  unfolding well_formed_block_def time_block_def
  by (simp add: json_loads_time is_space_def str_in_def tool_call_end_token_def)

lemma extract_blocks_result:
  assumes "bs \<noteq> []"
    and "\<forall>b\<in>set bs. well_formed_block loads b"
    and "\<forall>c\<in>set trailing. is_space c"
    and "\<not> str_in ''<think>'' (blocks_text bs @ trailing)"
    and "\<not> str_in ''</think>'' (blocks_text bs @ trailing)"
  shows "extract_tool_calls loads (blocks_text bs @ trailing) =
           \<lparr>tools_called = True, tool_calls = map call_of bs,
            content = opt_content (rstrip_nl (sep (hd bs)))\<rparr>"
proof -
  let ?text = "blocks_text bs @ trailing"
  from assms(1) obtain b bs' where bs: "bs = b # bs'" by (cases bs) auto
  define v where "v = lead b @ payload b @ trail b @ tool_call_end_token @ blocks_text bs' @ trailing"
  have tx: "?text = sep b @ tool_call_start_token @ v"
    by (simp add: bs blocks_text_def block_text_def v_def)
  have s: "strip_think_tags ?text = ?text"
    using assms(4,5) by (rule strip_think_tags_id)
  from assms(2) have "\<forall>c\<in>set (sep b). is_space c"
    by (simp add: bs well_formed_block_def)
  then have f: "str_find tool_call_start_token ?text = Some (length (sep b))"
    unfolding tx by (intro str_find_start_token str_in_spaces)
  then have i: "str_in tool_calls_start_token ?text"
    by (simp add: str_in_def tool_calls_start_token_def)
  have c: "slice_to ?text (py_find tool_calls_start_token ?text) = sep b"
    using f by (simp add: py_find_def tool_calls_start_token_def slice_to_def tx)
  have m: "make_tool_calls loads (findall ?text) = Some (map call_of bs)"
    using findall_blocks [OF assms(2,3)] make_tool_calls_well_formed [OF assms(2)] by simp
  show ?thesis
    unfolding extract_tool_calls_def Let_def s using i c m by (simp add: bs)
qed

section \<open>Facts about streaming extraction\<close>

lemma streaming_no_start:
  assumes "str_find tool_call_start_token (buffer st @ strip_think_tags d) = None"
  shows "extract_tool_calls_streaming loads d st =
           (DeltaMessage (opt_content (if 0 < current_tool_id st then []
                                       else buffer st @ strip_think_tags d)) [],
            st\<lparr>buffer := []\<rparr>)"
  using assms by (simp add: extract_tool_calls_streaming_def py_find_def Let_def)

lemma streaming_no_end:
  assumes "str_find tool_call_start_token (buffer st @ strip_think_tags d) = Some i"
    and "str_find_from tool_call_end_token (buffer st @ strip_think_tags d) i = None"
  shows "extract_tool_calls_streaming loads d st =
           (DeltaMessage (opt_content (rstrip_nl (take i (buffer st @ strip_think_tags d)))) [],
            st\<lparr>buffer := drop i (buffer st @ strip_think_tags d)\<rparr>)"
  using assms
  by (simp add: extract_tool_calls_streaming_def py_find_def py_find_from_def Let_def
      slice_to_def slice_from_def)

lemma streaming_block:
  assumes "str_find tool_call_start_token (buffer st @ strip_think_tags d) = Some i"
    and "str_find_from tool_call_end_token (buffer st @ strip_think_tags d) i = Some e"
  shows "extract_tool_calls_streaming loads d st =
    (let cur = buffer st @ strip_think_tags d;
         st2 = prepared st cur;
         ext = extract_tool_calls loads (take (e + length tool_call_end_token) cur)
     in case tool_calls ext of
          [] \<Rightarrow> (NoDelta, st2)
        | tc # _ \<Rightarrow>
            (case loads (arguments tc) of
               None \<Rightarrow> (Raised, st2)
             | Some args \<Rightarrow>
                 (DeltaMessage (content ext) [\<lparr>index = current_tool_id st2, func = tc\<rparr>],
                  st2\<lparr>buffer := drop (e + length tool_call_end_token) cur,
                      current_tool_id := current_tool_id st2 + 1,
                      prev_tool_call_arr := (prev_tool_call_arr st2)
                        [nat (current_tool_id st2) :=
                           JObj [(''name'', JStr (name tc)), (''arguments'', args)]],
                      streamed_args_for_tool := (streamed_args_for_tool st2)
                        [nat (current_tool_id st2) := arguments tc]\<rparr>)))"
  using assms
  by (simp add: extract_tool_calls_streaming_def py_find_def py_find_from_def Let_def
      slice_to_def slice_from_def prepared_def nat_add_distrib
      split: list.splits option.splits)


lemma pad_to_eq: "pad_to xs i d = xs @ replicate (nat (i + 1 - int (length xs))) d"
proof (induction xs i d rule: pad_to.induct)
  case (1 xs i d)
  show ?case
  proof (cases "int (length xs) \<le> i")
    case True
    then have "nat (i + 1 - int (length xs)) = Suc (nat (i + 1 - int (length (xs @ [d]))))"
      by simp
    with True "1.IH" show ?thesis
      by (subst pad_to.simps) (simp add: replicate_app_Cons_same)
  next
    case False
    then show ?thesis by (subst pad_to.simps) simp
  qed
qed

lemma prepared_fields:
  "buffer (prepared st cur) = cur"
  "current_tool_id (prepared st cur) = (if current_tool_id st = - 1 then 0 else current_tool_id st)"
  "current_tool_id (prepared st cur) < int (length (prev_tool_call_arr (prepared st cur)))"
  "current_tool_id (prepared st cur) < int (length (streamed_args_for_tool (prepared st cur)))"
  "current_tool_id st = - 1 \<Longrightarrow> prev_tool_call_arr (prepared st cur) = [JObj []]"
  "current_tool_id st = - 1 \<Longrightarrow> streamed_args_for_tool (prepared st cur) = [[]]"
  by (auto simp: prepared_def pad_to_eq)

lemma streaming_step_calls:
  assumes "extract_tool_calls_streaming loads d st = (r, st')"
  shows "(delta_calls r = [] \<and> next_index st' = next_index st)
       \<or> ((\<exists>tc. delta_calls r = [\<lparr>index = next_index st, func = tc\<rparr>])
           \<and> current_tool_id st' = next_index st + 1)"
proof (cases "str_find tool_call_start_token (buffer st @ strip_think_tags d)")
  case None
  from streaming_no_start [OF this, of loads] assms show ?thesis
    by (auto simp: next_index_def)
next
  case (Some i)
  show ?thesis
  proof (cases "str_find_from tool_call_end_token (buffer st @ strip_think_tags d) i")
    case None
    from streaming_no_end [OF Some this, of loads] assms show ?thesis
      by (auto simp: next_index_def)
  next
    case e: (Some e)
    from streaming_block [OF Some e, of loads] assms show ?thesis
      by (auto simp: Let_def next_index_def prepared_fields split: list.splits option.splits)
  qed
qed


lemma upt_shift: "[n..<Suc (n + m)] = n # [Suc n..<Suc (n + m)]"
  by (subst upt_rec) simp

lemma session_indices:
  assumes "next_index st = int n"
  shows "map index (emitted_calls (session loads st ds))
           = map int [n..<n + length (emitted_calls (session loads st ds))]
         \<and> next_index (session_state loads st ds)
           = int (n + length (emitted_calls (session loads st ds)))"
  using assms
proof (induction ds arbitrary: st n)
  case Nil
  then show ?case by (simp add: emitted_calls_def)
next
  case (Cons d ds)
  obtain r st' where step: "extract_tool_calls_streaming loads d st = (r, st')"
    by (cases "extract_tool_calls_streaming loads d st")
  have e: "emitted_calls (session loads st (d # ds)) = delta_calls r @ emitted_calls (session loads st' ds)"
    by (simp add: step emitted_calls_def)
  have s: "session_state loads st (d # ds) = session_state loads st' ds"
    by (simp add: step)
  from streaming_step_calls [OF step] show ?case
  proof
    assume a: "delta_calls r = [] \<and> next_index st' = next_index st"
    with Cons.prems have "next_index st' = int n" by simp
    from Cons.IH [OF this] a show ?thesis
      unfolding e s by simp
  next
    assume a: "(\<exists>tc. delta_calls r = [\<lparr>index = next_index st, func = tc\<rparr>])
                 \<and> current_tool_id st' = next_index st + 1"
    then obtain tc where tc: "delta_calls r = [\<lparr>index = int n, func = tc\<rparr>]"
      using Cons.prems by auto
    from a Cons.prems have "next_index st' = int (Suc n)"
      by (simp add: next_index_def)
    from Cons.IH [OF this] tc show ?thesis
      unfolding e s by (simp add: upt_shift del: upt_Suc)
  qed
qed

lemma next_index_init: "next_index init_state = int 0"
  by (simp add: next_index_def init_state_def)

lemma str_find_from_append:
  assumes "str_find_from pat s i = Some e" and "i \<le> length s"
  shows "str_find_from pat (s @ t) i = Some e"
proof -
  from assms(1) obtain k where k: "str_find pat (drop i s) = Some k" "e = i + k"
    by (auto simp: str_find_from_def)
  from str_find_append [OF k(1), of t] assms(2) k(2) show ?thesis
    by (simp add: str_find_from_def)
qed

lemma str_find_from_bound:
  assumes "str_find_from pat s i = Some e" and "i \<le> length s"
  shows "e + length pat \<le> length s"
proof -
  from assms(1) obtain k where k: "str_find pat (drop i s) = Some k" "e = i + k"
    by (auto simp: str_find_from_def)
  from str_find_bound [OF k(1)] assms(2) k(2) show ?thesis by simp
qed

lemma zero_call_span_append:
  assumes "zero_call_span loads b"
  shows "zero_call_span loads (b @ x)"
proof -
  from assms obtain i e where i: "str_find tool_call_start_token b = Some i"
    and e: "str_find_from tool_call_end_token b i = Some e"
    and z: "tool_calls (extract_tool_calls loads (take (e + length tool_call_end_token) b)) = []"
    by (auto simp: zero_call_span_def)
  from str_find_bound [OF i] have le: "i \<le> length b" by simp
  from str_find_from_bound [OF e le]
  have "take (e + length tool_call_end_token) (b @ x) = take (e + length tool_call_end_token) b"
    by simp
  with str_find_append [OF i, of x] str_find_from_append [OF e le, of x] z show ?thesis
    unfolding zero_call_span_def by auto
qed

lemma zero_call_span_step:
  assumes "zero_call_span loads (buffer st @ strip_think_tags d)"
  shows "extract_tool_calls_streaming loads d st = (NoDelta, prepared st (buffer st @ strip_think_tags d))"
proof -
  from assms obtain i e where i: "str_find tool_call_start_token (buffer st @ strip_think_tags d) = Some i"
    and e: "str_find_from tool_call_end_token (buffer st @ strip_think_tags d) i = Some e"
    and z: "tool_calls (extract_tool_calls loads
              (take (e + length tool_call_end_token) (buffer st @ strip_think_tags d))) = []"
    by (auto simp: zero_call_span_def)
  from streaming_block [OF i e, of loads] z show ?thesis
    by (simp add: Let_def)
qed

lemma zero_call_span_session:
  assumes "zero_call_span loads (buffer st)"
  shows "session loads st ds = replicate (length ds) NoDelta
         \<and> prefix (buffer st) (buffer (session_state loads st ds))"
  using assms
proof (induction ds arbitrary: st)
  case Nil
  then show ?case by simp
next
  case (Cons d ds)
  let ?cur = "buffer st @ strip_think_tags d"
  from Cons.prems have z: "zero_call_span loads ?cur"
    by (rule zero_call_span_append)
  note step = zero_call_span_step [OF z]
  have "zero_call_span loads (buffer (prepared st ?cur))"
    using z by (simp add: prepared_fields)
  from Cons.IH [OF this] have "session loads (prepared st ?cur) ds = replicate (length ds) NoDelta"
    and "prefix ?cur (buffer (session_state loads (prepared st ?cur) ds))"
    by (simp_all add: prepared_fields)
  then show ?case
    by (simp add: step) (meson append_prefixD)
qed

section \<open>Facts about sessions\<close>






lemma str_find_split:
  assumes "str_find pat s = Some i"
  shows "s = take i s @ pat @ drop (i + length pat) s"
proof -
  from assms have "prefix pat (drop i s)" by (simp add: str_find_Some_iff)
  then obtain v where v: "drop i s = pat @ v" by (auto simp: prefix_def)
  then have "drop (length pat) (drop i s) = v" by simp
  then have "v = drop (i + length pat) s" by (simp add: add.commute)
  with v show ?thesis by (metis append_take_drop_id)
qed

lemma str_find_no_earlier:
  assumes "str_find pat s = Some i" and "pat \<noteq> []"
  shows "\<not> sublist pat (take i s)"
proof
  assume "sublist pat (take i s)"
  then obtain a b where ab: "take i s = a @ pat @ b" by (auto simp: sublist_def)
  then have "length a + length pat + length b \<le> i"
    by (metis length_append length_take min.cobounded2 add.assoc)
  with assms(2) have lt: "length a < i" by (cases pat) auto
  have "s = a @ pat @ b @ drop i s"
    using ab by (metis append.assoc append_take_drop_id)
  then have "prefix pat (drop (length a) s)"
    by (metis append_eq_conv_conj prefixI)
  with assms(1) lt show False by (simp add: str_find_Some_iff)
qed

















section \<open>Claims about one-shot extraction\<close>

text \<open>
  C2 (as amended). For every text built from \<open>N \<ge> 1\<close> well-formed blocks, each
  preceded by arbitrary white space, followed by arbitrary white space, and containing no
  narration delimiter, where no payload contains the end marker and every payload is a JSON
  object with a string \<open>name\<close> and with \<open>arguments\<close>: \<open>extract_tool_calls\<close> returns
  \<open>tools_called = True\<close> and exactly the \<open>N\<close> calls of the blocks, in left-to-right
  order, each with the name of its object and the \<open>json.dumps\<close> text of its arguments;
  the content is the white space before the first block without its trailing newlines, or
  \<open>None\<close> when that is empty.
\<close>

theorem extract_tool_calls_blocks:
  assumes "bs \<noteq> []"
    and "\<forall>b\<in>set bs. well_formed_block loads b"
    and "\<forall>c\<in>set trailing. is_space c"
    and "\<not> str_in ''<think>'' (blocks_text bs @ trailing)"
    and "\<not> str_in ''</think>'' (blocks_text bs @ trailing)"
  shows "extract_tool_calls loads (blocks_text bs @ trailing) =
           \<lparr>tools_called = True, tool_calls = map call_of bs,
            content = opt_content (rstrip_nl (sep (hd bs)))\<rparr>"
  using assms by (rule extract_blocks_result)

theorem extract_tool_calls_blocks_witness:
  \<open>extract_tool_calls json_loads
     ''<tool_call>\<newline>{"name": "get_weather", "arguments": {"location": "Paris"}}\<newline></tool_call>\<newline><tool_call>\<newline>{"name": "get_time", "arguments": {"timezone": "UTC"}}\<newline></tool_call>''
   = \<lparr>tools_called = True,
      tool_calls = [\<lparr>name = ''get_weather'', arguments = ''{"location": "Paris"}''\<rparr>,
                    \<lparr>name = ''get_time'', arguments = ''{"timezone": "UTC"}''\<rparr>],
      content = None\<rparr>\<close>
proof -
  let ?bs = "[weather_block, time_block]"
  have t: \<open>blocks_text ?bs @ [] =
     ''<tool_call>\<newline>{"name": "get_weather", "arguments": {"location": "Paris"}}\<newline></tool_call>\<newline><tool_call>\<newline>{"name": "get_time", "arguments": {"timezone": "UTC"}}\<newline></tool_call>''\<close>
    by (simp add: blocks_text_def block_text_def weather_block_def time_block_def
        tool_call_start_token_def tool_call_end_token_def)
  have h1: "?bs \<noteq> []" by simp
  have h2: "\<forall>b\<in>set ?bs. well_formed_block json_loads b"
    by (simp add: well_formed_weather_block well_formed_time_block)
  have h3: "\<forall>c\<in>set []. is_space c" by simp
  have h4: "\<not> str_in ''<think>'' (blocks_text ?bs @ [])"
    unfolding t by (simp add: str_in_def)
  have h5: "\<not> str_in ''</think>'' (blocks_text ?bs @ [])"
    unfolding t by (simp add: str_in_def)
  have c: \<open>map call_of ?bs = [\<lparr>name = ''get_weather'', arguments = ''{"location": "Paris"}''\<rparr>,
                    \<lparr>name = ''get_time'', arguments = ''{"timezone": "UTC"}''\<rparr>]\<close>
    by (simp add: call_of_def weather_block_def time_block_def encode_str_def escape_char_def)
  have o: "opt_content (rstrip_nl (sep (hd ?bs))) = None"
    by (simp add: opt_content_def rstrip_nl_def weather_block_def)
  from extract_tool_calls_blocks [OF h1 h2 h3 h4 h5] show ?thesis
    unfolding t c o .
qed

text \<open>
  C2 (as stated) fails for a payload that is a JSON object with name and arguments and
  has the end marker inside a string: the lazy match ends at that first end marker, the
  truncated payload does not parse, and the extraction reports no call.
\<close>

theorem extract_tool_calls_end_marker_in_payload:
  \<open>json_loads ''{"name":"f","arguments":{"x":"</tool_call>"}}'' =
     Some (JObj [(''name'', JStr ''f''), (''arguments'', JObj [(''x'', JStr ''</tool_call>'')])])
   \<and> extract_tool_calls json_loads
         ''<tool_call>{"name":"f","arguments":{"x":"</tool_call>"}}</tool_call>''
       = \<lparr>tools_called = False, tool_calls = [],
          content = Some ''<tool_call>{"name":"f","arguments":{"x":"</tool_call>"}}</tool_call>''\<rparr>\<close>
  by code_simp

text \<open>
  C5. When the stripped text contains the start marker and the JSON reader fails on the
  inner text of some located span (or building the call from it fails in any other way),
  \<open>extract_tool_calls\<close> returns \<open>tools_called = False\<close>, no call at all, and the whole
  stripped text as content.
\<close>

theorem extract_tool_calls_degrades:
  assumes "str_in tool_calls_start_token (strip_think_tags text)"
    and "j \<in> set (findall (strip_think_tags text))"
    and "loads j = None \<or> make_tool_call loads j = None"
  shows "extract_tool_calls loads text =
           \<lparr>tools_called = False, tool_calls = [], content = Some (strip_think_tags text)\<rparr>"
proof -
  from assms(3) have "make_tool_call loads j = None"
    using make_tool_call_loads_None by blast
  with assms(2) have "make_tool_calls loads (findall (strip_think_tags text)) = None"
    by (rule make_tool_calls_None)
  with assms(1) show ?thesis
    by (simp add: extract_tool_calls_def)
qed

theorem extract_tool_calls_degrades_witness:
  \<open>extract_tool_calls json_loads ''<tool_call>{"name": "f"}</tool_call><tool_call>oops</tool_call>''
   = \<lparr>tools_called = False, tool_calls = [],
      content = Some ''<tool_call>{"name": "f"}</tool_call><tool_call>oops</tool_call>''\<rparr>\<close>
proof -
  let ?t = \<open>''<tool_call>{"name": "f"}</tool_call><tool_call>oops</tool_call>''\<close>
  have s: "strip_think_tags ?t = ?t" by code_simp
  have h1: "str_in tool_calls_start_token (strip_think_tags ?t)" by code_simp
  have "findall ?t = [''{\"name\": \"f\"}'', ''oops'']" by code_simp
  then have h2: "''oops'' \<in> set (findall (strip_think_tags ?t))" by (simp add: s)
  have "json_loads ''oops'' = None" by code_simp
  then have h3: "json_loads ''oops'' = None \<or> make_tool_call json_loads ''oops'' = None" by simp
  from extract_tool_calls_degrades [OF h1 h2 h3] show ?thesis
    by (simp add: s)
qed

text \<open>
  C8 (as amended). When \<open>extract_tool_calls\<close> reports calls (\<open>tools_called = True\<close>), the
  stripped text holds a start marker, and the content is the text before the first one
  without its trailing newlines: \<open>None\<close> whenever that is empty, a non-empty string
  otherwise, never the empty string. When it reports none (no start marker, or a failure),
  its content is the whole stripped text, whatever it is.
\<close>

theorem extract_tool_calls_content:
  "(tools_called (extract_tool_calls loads text) \<longrightarrow>
      (\<exists>u v. strip_think_tags text = u @ tool_call_start_token @ v
           \<and> \<not> str_in tool_call_start_token u
           \<and> content (extract_tool_calls loads text)
               = (if rstrip_nl u = [] then None else Some (rstrip_nl u)))
      \<and> content (extract_tool_calls loads text) \<noteq> Some [])
   \<and> (\<not> tools_called (extract_tool_calls loads text) \<longrightarrow>
      content (extract_tool_calls loads text) = Some (strip_think_tags text))"
proof (intro conjI impI)
  let ?s = "strip_think_tags text"
  let ?r = "extract_tool_calls loads text"
  assume tc: "tools_called ?r"
  then have "str_in tool_calls_start_token ?s"
    by (auto simp: extract_tool_calls_def Let_def split: if_splits)
  then obtain i where i: "str_find tool_call_start_token ?s = Some i"
    by (auto simp: str_in_def tool_calls_start_token_def)
  from tc i have c: "content ?r = opt_content (rstrip_nl (take i ?s))"
    by (auto simp: extract_tool_calls_def Let_def py_find_def slice_to_def
        tool_calls_start_token_def split: if_splits option.splits)
  have "\<not> sublist tool_call_start_token (take i ?s)"
    by (rule str_find_no_earlier [OF i]) (simp add: tool_call_start_token_def)
  then have "\<not> str_in tool_call_start_token (take i ?s)"
    by (simp add: str_in_iff_sublist)
  with str_find_split [OF i] c
  show "\<exists>u v. ?s = u @ tool_call_start_token @ v \<and> \<not> str_in tool_call_start_token u
          \<and> content ?r = (if rstrip_nl u = [] then None else Some (rstrip_nl u))"
    unfolding opt_content_def by blast
  from c show "content ?r \<noteq> Some []" by (simp add: opt_content_not_empty)
next
  assume "\<not> tools_called (extract_tool_calls loads text)"
  then show "content (extract_tool_calls loads text) = Some (strip_think_tags text)"
    by (simp add: extract_tool_calls_def Let_def split: if_splits option.splits)
qed

theorem extract_tool_calls_content_witness:
  \<open>tools_called (extract_tool_calls json_loads ''\<newline><tool_call>{"name": "f"}</tool_call>'')
   \<and> (\<exists>u v. strip_think_tags ''\<newline><tool_call>{"name": "f"}</tool_call>'' = u @ tool_call_start_token @ v
           \<and> \<not> str_in tool_call_start_token u
           \<and> content (extract_tool_calls json_loads ''\<newline><tool_call>{"name": "f"}</tool_call>'')
               = (if rstrip_nl u = [] then None else Some (rstrip_nl u)))
   \<and> content (extract_tool_calls json_loads ''\<newline><tool_call>{"name": "f"}</tool_call>'') = None
   \<and> \<not> tools_called (extract_tool_calls json_loads ''<think>abc</think>'')
   \<and> content (extract_tool_calls json_loads ''<think>abc</think>'') = Some (strip_think_tags ''<think>abc</think>'')\<close>
proof -
  have a: \<open>tools_called (extract_tool_calls json_loads ''\<newline><tool_call>{"name": "f"}</tool_call>'')\<close>
    by code_simp
  have b: \<open>\<not> tools_called (extract_tool_calls json_loads ''<think>abc</think>'')\<close>
    by code_simp
  have c: \<open>content (extract_tool_calls json_loads ''\<newline><tool_call>{"name": "f"}</tool_call>'') = None\<close>
    by code_simp
  from a b c
    extract_tool_calls_content [of json_loads \<open>''\<newline><tool_call>{"name": "f"}</tool_call>''\<close>]
    extract_tool_calls_content [of json_loads \<open>''<think>abc</think>''\<close>]
  show ?thesis by blast
qed

text \<open>
  C8 (as stated) fails on the branch without a start marker: for the empty text the
  content is the empty string, not \<open>None\<close>.
\<close>

theorem extract_tool_calls_empty_content:
  "content (extract_tool_calls json_loads []) = Some []"
  by code_simp

text \<open>
  C10. When the stripped text is \<open>u\<close>, the start marker, and \<open>v\<close>, where \<open>u\<close> holds no
  start marker and \<open>v\<close> no end marker (so no span is complete), \<open>extract_tool_calls\<close>
  returns \<open>tools_called = True\<close> with no call, and its content is \<open>u\<close> without its
  trailing newlines, or \<open>None\<close> when that is empty; the text from the start marker on is
  not in the result.
\<close>

theorem extract_tool_calls_no_complete_span:
  assumes "strip_think_tags text = u @ tool_call_start_token @ v"
    and "\<not> str_in tool_call_start_token u"
    and "\<not> str_in tool_call_end_token v"
  shows "extract_tool_calls loads text =
           \<lparr>tools_called = True, tool_calls = [], content = opt_content (rstrip_nl u)\<rparr>"
proof -
  let ?s = "strip_think_tags text"
  have f: "str_find tool_call_start_token ?s = Some (length u)"
    unfolding assms(1) using assms(2) by (rule str_find_start_token)
  then have i: "str_in tool_calls_start_token ?s"
    by (simp add: str_in_def tool_calls_start_token_def)
  have c: "slice_to ?s (py_find tool_calls_start_token ?s) = u"
    using f by (simp add: py_find_def tool_calls_start_token_def slice_to_def assms(1))
  have "\<nexists>a b c. ?s = a @ ''<tool_call>'' @ b @ ''</tool_call>'' @ c"
  proof
    assume "\<exists>a b c. ?s = a @ ''<tool_call>'' @ b @ ''</tool_call>'' @ c"
    then obtain a b c where abc: "?s = a @ tool_call_start_token @ b @ tool_call_end_token @ c"
      by (auto simp: tool_call_start_token_def tool_call_end_token_def)
    then have "prefix tool_call_start_token (drop (length a) ?s)" by simp
    with f have "\<not> length a < length u"
      unfolding str_find_Some_iff by blast
    then have le: "length u \<le> length a" by simp
    from abc have "u @ tool_call_start_token @ v = a @ tool_call_start_token @ b @ tool_call_end_token @ c"
      by (simp add: assms(1))
    then have "drop (length u + 11) (u @ tool_call_start_token @ v)
                 = drop (length u + 11) ((a @ tool_call_start_token @ b) @ tool_call_end_token @ c)"
      by simp
    moreover have "drop (length u + 11) (u @ tool_call_start_token @ v) = v"
      by (simp add: tool_call_start_token_def)
    moreover have "drop (length u + 11) ((a @ tool_call_start_token @ b) @ tool_call_end_token @ c)
                 = drop (length u + 11) (a @ tool_call_start_token @ b) @ tool_call_end_token @ c"
      using le by (intro drop_append_le) (simp add: tool_call_start_token_def)
    ultimately have "sublist tool_call_end_token v"
      unfolding sublist_def by metis
    with assms(3) show False by (simp add: str_in_iff_sublist)
  qed
  then have "findall ?s = []" by (rule findall_no_span)
  with i c show ?thesis
    by (simp add: extract_tool_calls_def)
qed

theorem extract_tool_calls_no_complete_span_witness:
  \<open>extract_tool_calls json_loads ''<think>so</think>abc\<newline><tool_call>{"name": "g"}''
   = \<lparr>tools_called = True, tool_calls = [], content = Some ''soabc''\<rparr>\<close>
proof -
  let ?t = \<open>''<think>so</think>abc\<newline><tool_call>{"name": "g"}''\<close>
  have h1: \<open>strip_think_tags ?t = ''soabc\<newline>'' @ tool_call_start_token @ ''{"name": "g"}''\<close>
    by code_simp
  have h2: \<open>\<not> str_in tool_call_start_token ''soabc\<newline>''\<close> by code_simp
  have h3: \<open>\<not> str_in tool_call_end_token ''{"name": "g"}''\<close> by code_simp
  have c: \<open>opt_content (rstrip_nl ''soabc\<newline>'') = Some ''soabc''\<close> by code_simp
  from extract_tool_calls_no_complete_span [OF h1 h2 h3, of json_loads] show ?thesis
    unfolding c .
qed

text \<open>
  C7 (as amended). For every payload that the reader parses as a JSON object whose
  \<open>name\<close> is absent or a string, the call built from it has the name of the object, the
  empty string if absent, and as arguments the \<open>json.dumps\<close> text of the object's
  arguments, \<open>{}\<close> if absent. That text depends on the parsed arguments alone, not on the
  white space of the payload; it has Python's default separators (a space after each comma
  and colon) and the keys in the order of the payload.
\<close>

theorem make_tool_call_fields:
  assumes "loads p = Some (JObj d)"
    and "map_of d ''name'' = None \<or> (\<exists>n. map_of d ''name'' = Some (JStr n))"
  shows "\<exists>tc. make_tool_call loads p = Some tc
           \<and> name tc = (case map_of d ''name'' of Some (JStr n) \<Rightarrow> n | _ \<Rightarrow> [])
           \<and> arguments tc = (case map_of d ''arguments'' of None \<Rightarrow> ''{}'' | Some a \<Rightarrow> json_dumps a)"
  using assms
  by (auto simp: make_tool_call_def dict_get_map_of split: option.splits)

theorem make_tool_call_fields_witness:
  \<open>make_tool_call json_loads ''{ "arguments" : {"a":1} }'' = Some \<lparr>name = [], arguments = ''{"a": 1}''\<rparr>
   \<and> make_tool_call json_loads ''{"name": "f"}'' = Some \<lparr>name = ''f'', arguments = ''{}''\<rparr>\<close>
proof -
  have l1: \<open>json_loads ''{ "arguments" : {"a":1} }'' = Some (JObj [(''arguments'', JObj [(''a'', JInt 1)])])\<close>
    by code_simp
  have n1: \<open>map_of [(''arguments'', JObj [(''a'', JInt 1)])] ''name'' = None
            \<or> (\<exists>n. map_of [(''arguments'', JObj [(''a'', JInt 1)])] ''name'' = Some (JStr n))\<close>
    by simp
  have l2: \<open>json_loads ''{"name": "f"}'' = Some (JObj [(''name'', JStr ''f'')])\<close>
    by code_simp
  have n2: \<open>map_of [(''name'', JStr ''f'')] ''name'' = None
            \<or> (\<exists>n. map_of [(''name'', JStr ''f'')] ''name'' = Some (JStr n))\<close>
    by simp
  have d: \<open>json_dumps (JObj [(''a'', JInt 1)]) = ''{"a": 1}''\<close>
    by code_simp
  from make_tool_call_fields [of json_loads, OF l1 n1]
    make_tool_call_fields [of json_loads, OF l2 n2] d
  show ?thesis
    by (auto simp: function_call.equality)
qed

text \<open>
  C7 (as stated) fails: the two payloads below have the same arguments as JSON values
  (the same keys with the same values), in a different key order, and the arguments texts
  of their calls differ; neither is the compact serialization, which has no spaces.
\<close>

theorem make_tool_call_key_order:
  \<open>json_loads ''{"name":"f","arguments":{"a":1,"b":2}}'' =
     Some (JObj [(''name'', JStr ''f''), (''arguments'', JObj [(''a'', JInt 1), (''b'', JInt 2)])])
   \<and> json_loads ''{"name":"f","arguments":{"b":2,"a":1}}'' =
     Some (JObj [(''name'', JStr ''f''), (''arguments'', JObj [(''b'', JInt 2), (''a'', JInt 1)])])
   \<and> map_of [(''a'', JInt 1), (''b'', JInt 2)] = map_of [(''b'', JInt 2), (''a'', JInt 1)]
   \<and> make_tool_call json_loads ''{"name":"f","arguments":{"a":1,"b":2}}'' =
     Some \<lparr>name = ''f'', arguments = ''{"a": 1, "b": 2}''\<rparr>
   \<and> make_tool_call json_loads ''{"name":"f","arguments":{"b":2,"a":1}}'' =
     Some \<lparr>name = ''f'', arguments = ''{"b": 2, "a": 1}''\<rparr>\<close>
proof -
  have "map_of [(''a'', JInt 1), (''b'', JInt 2)] = map_of [(''b'', JInt 2), (''a'', JInt 1)]"
    by (rule ext) simp
  moreover have \<open>json_loads ''{"name":"f","arguments":{"a":1,"b":2}}'' =
     Some (JObj [(''name'', JStr ''f''), (''arguments'', JObj [(''a'', JInt 1), (''b'', JInt 2)])])\<close>
    by code_simp
  moreover have \<open>json_loads ''{"name":"f","arguments":{"b":2,"a":1}}'' =
     Some (JObj [(''name'', JStr ''f''), (''arguments'', JObj [(''b'', JInt 2), (''a'', JInt 1)])])\<close>
    by code_simp
  moreover have \<open>make_tool_call json_loads ''{"name":"f","arguments":{"a":1,"b":2}}'' =
     Some \<lparr>name = ''f'', arguments = ''{"a": 1, "b": 2}''\<rparr>\<close>
    by code_simp
  moreover have \<open>make_tool_call json_loads ''{"name":"f","arguments":{"b":2,"a":1}}'' =
     Some \<lparr>name = ''f'', arguments = ''{"b": 2, "a": 1}''\<rparr>\<close>
    by code_simp
  ultimately show ?thesis by blast
qed

section \<open>Claims about streaming extraction\<close>




text \<open>
  C3. In a session on a fresh parser, the indices of the emitted tool-call fragments are
  \<open>0, 1, 2, ...\<close> in emission order: they start at \<open>0\<close>, each is the one before plus
  one, so none is emitted twice or out of order.
\<close>

theorem streaming_indices_count_up:
  "map index (emitted_calls (session loads init_state ds))
     = map int [0..<length (emitted_calls (session loads init_state ds))]"
  using session_indices [OF next_index_init, of loads ds] by simp

theorem streaming_indices_count_up_witness:
  \<open>map index (emitted_calls (session json_loads init_state
     [''<tool_call>{"name": "f"}</tool_call>'', ''<tool_call>{"name": "g"}</tool_call>'', ''bye'']))
   = [0, 1]\<close>
proof -
  have l: \<open>length (emitted_calls (session json_loads init_state
     [''<tool_call>{"name": "f"}</tool_call>'', ''<tool_call>{"name": "g"}</tool_call>'', ''bye''])) = 2\<close>
    by code_simp
  have u: "map int [0..<2] = [0, 1]"
    by (simp add: upt_rec)
  from streaming_indices_count_up [of json_loads
     \<open>[''<tool_call>{"name": "f"}</tool_call>'', ''<tool_call>{"name": "g"}</tool_call>'', ''bye'']\<close>]
  show ?thesis
    unfolding l u .
qed

text \<open>
  C4. In a session on a fresh parser in which a tool call has been emitted, a call whose
  buffer, after the stripped fragment is appended, holds no start marker returns a message
  with content \<open>None\<close> and no tool call, and leaves the buffer empty.
\<close>

theorem streaming_suppresses_after_first_call:
  assumes "emitted_calls (session loads init_state ds) \<noteq> []"
    and "\<not> str_in tool_call_start_token
             (buffer (session_state loads init_state ds) @ strip_think_tags d)"
  shows "extract_tool_calls_streaming loads d (session_state loads init_state ds)
           = (DeltaMessage None [], (session_state loads init_state ds)\<lparr>buffer := []\<rparr>)"
proof -
  let ?st = "session_state loads init_state ds"
  from session_indices [OF next_index_init, of loads ds] assms(1)
  have "0 < next_index ?st" by simp
  then have "0 < current_tool_id ?st"
    by (simp add: next_index_def split: if_splits)
  moreover from assms(2) have "str_find tool_call_start_token (buffer ?st @ strip_think_tags d) = None"
    by (simp add: str_in_def)
  ultimately show ?thesis
    using streaming_no_start [of ?st d loads] by (simp add: opt_content_def)
qed

theorem streaming_suppresses_after_first_call_witness:
  \<open>extract_tool_calls_streaming json_loads ''trailing narration''
     (session_state json_loads init_state [''<tool_call>{"name": "f"}</tool_call>''])
   = (DeltaMessage None [],
      (session_state json_loads init_state [''<tool_call>{"name": "f"}</tool_call>''])\<lparr>buffer := []\<rparr>)\<close>
proof -
  have h1: \<open>emitted_calls (session json_loads init_state [''<tool_call>{"name": "f"}</tool_call>'']) \<noteq> []\<close>
    by code_simp
  have h2: \<open>\<not> str_in tool_call_start_token
     (buffer (session_state json_loads init_state [''<tool_call>{"name": "f"}</tool_call>''])
      @ strip_think_tags ''trailing narration'')\<close>
    by code_simp
  from streaming_suppresses_after_first_call [OF h1 h2] show ?thesis .
qed

text \<open>
  C9. From any state, when the buffer with the stripped fragment appended holds a span on
  which extraction gives no call, this call and every later call of the session return
  \<open>None\<close>, and the text stays at the head of the buffer. The first of these calls has
  nevertheless changed the state: the counter has left its sentinel \<open>-1\<close> for \<open>0\<close>, and
  both per-index lists reach the counter (from the sentinel they are \<open>[{}]\<close> and
  \<open>[""]\<close>).
\<close>

theorem streaming_stuck_after_zero_calls:
  assumes "zero_call_span loads (buffer st @ strip_think_tags d)"
  shows "session loads st (d # ds) = replicate (Suc (length ds)) NoDelta
       \<and> prefix (buffer st @ strip_think_tags d) (buffer (session_state loads st (d # ds)))
       \<and> current_tool_id (snd (extract_tool_calls_streaming loads d st))
           = (if current_tool_id st = - 1 then 0 else current_tool_id st)
       \<and> current_tool_id (snd (extract_tool_calls_streaming loads d st))
           < int (length (prev_tool_call_arr (snd (extract_tool_calls_streaming loads d st))))
       \<and> current_tool_id (snd (extract_tool_calls_streaming loads d st))
           < int (length (streamed_args_for_tool (snd (extract_tool_calls_streaming loads d st))))
       \<and> (current_tool_id st = - 1 \<longrightarrow>
            prev_tool_call_arr (snd (extract_tool_calls_streaming loads d st)) = [JObj []]
            \<and> streamed_args_for_tool (snd (extract_tool_calls_streaming loads d st)) = [[]])"
proof -
  let ?cur = "buffer st @ strip_think_tags d"
  note step = zero_call_span_step [OF assms]
  have "zero_call_span loads (buffer (prepared st ?cur))"
    using assms by (simp add: prepared_fields)
  from zero_call_span_session [OF this, of ds]
  have "session loads (prepared st ?cur) ds = replicate (length ds) NoDelta"
    and "prefix ?cur (buffer (session_state loads (prepared st ?cur) ds))"
    by (simp_all add: prepared_fields)
  moreover have "snd (extract_tool_calls_streaming loads d st) = prepared st ?cur"
    by (simp add: step)
  ultimately show ?thesis
    using prepared_fields [of st ?cur] by (simp add: step)
qed

theorem streaming_stuck_after_zero_calls_witness:
  \<open>session json_loads init_state
     [''<tool_call>x</tool_call>'', ''<tool_call>{"name": "g"}</tool_call>'', ''abc'']
     = [NoDelta, NoDelta, NoDelta]
   \<and> prefix ''<tool_call>x</tool_call>''
        (buffer (session_state json_loads init_state
          [''<tool_call>x</tool_call>'', ''<tool_call>{"name": "g"}</tool_call>'', ''abc'']))
   \<and> current_tool_id (snd (extract_tool_calls_streaming json_loads ''<tool_call>x</tool_call>'' init_state)) = 0
   \<and> prev_tool_call_arr (snd (extract_tool_calls_streaming json_loads ''<tool_call>x</tool_call>'' init_state)) = [JObj []]
   \<and> streamed_args_for_tool (snd (extract_tool_calls_streaming json_loads ''<tool_call>x</tool_call>'' init_state)) = [[]]\<close>
proof -
  let ?d = "''<tool_call>x</tool_call>''"
  have b: "buffer init_state @ strip_think_tags ?d = ?d" by code_simp
  have "str_find tool_call_start_token ?d = Some 0" by code_simp
  moreover have "str_find_from tool_call_end_token ?d 0 = Some 12" by code_simp
  moreover have "tool_calls (extract_tool_calls json_loads (take (12 + length tool_call_end_token) ?d)) = []"
    by code_simp
  ultimately have "zero_call_span json_loads (buffer init_state @ strip_think_tags ?d)"
    unfolding zero_call_span_def b by blast
  from streaming_stuck_after_zero_calls [OF this,
      of \<open>[''<tool_call>{"name": "g"}</tool_call>'', ''abc'']\<close>]
  show ?thesis
    unfolding b by (simp add: init_state_def del: session.simps session_state.simps)
qed

section \<open>Claims about the stripper\<close>

text \<open>
  C6 (as amended). Stripping a stripped text changes nothing exactly when the stripped
  text contains neither narration delimiter: \<open>strip(strip(s)) = strip(s)\<close> holds for these
  inputs \<open>s\<close> and for no other. (Removing a delimiter can join the text on both sides of
  it into a new delimiter, which a single pass leaves in place.)
\<close>

theorem strip_think_tags_idempotent_iff:
  "strip_think_tags (strip_think_tags s) = strip_think_tags s
   \<longleftrightarrow> \<not> str_in ''<think>'' (strip_think_tags s) \<and> \<not> str_in ''</think>'' (strip_think_tags s)"
proof
  let ?t = "strip_think_tags s"
  assume idem: "strip_think_tags ?t = ?t"
  have le: "length (strip_think_tags ?t) \<le> length (str_remove ''<think>'' ?t)"
    unfolding strip_think_tags_def [of ?t] by (rule str_remove_length_le)
  have a: "\<not> str_in ''<think>'' ?t"
  proof
    assume "str_in ''<think>'' ?t"
    then have "length (str_remove ''<think>'' ?t) < length ?t"
      by (intro str_remove_shorter) (simp_all add: str_in_iff_sublist)
    with le idem show False by simp
  qed
  have b: "\<not> str_in ''</think>'' ?t"
  proof
    assume "str_in ''</think>'' ?t"
    moreover from a have "str_remove ''<think>'' ?t = ?t"
      by (intro str_remove_id) (simp add: str_in_iff_sublist)
    ultimately have "length (strip_think_tags ?t) < length ?t"
      unfolding strip_think_tags_def [of ?t]
      by (simp add: str_remove_shorter str_in_iff_sublist)
    with idem show False by simp
  qed
  from a b show "\<not> str_in ''<think>'' ?t \<and> \<not> str_in ''</think>'' ?t" ..
next
  assume "\<not> str_in ''<think>'' (strip_think_tags s) \<and> \<not> str_in ''</think>'' (strip_think_tags s)"
  then show "strip_think_tags (strip_think_tags s) = strip_think_tags s"
    by (intro strip_think_tags_id) simp_all
qed

theorem strip_think_tags_idempotent_iff_witness:
  "\<not> str_in ''<think>'' (strip_think_tags ''a<think>b</think>c'')
   \<and> \<not> str_in ''</think>'' (strip_think_tags ''a<think>b</think>c'')
   \<and> strip_think_tags (strip_think_tags ''a<think>b</think>c'')
       = strip_think_tags ''a<think>b</think>c''"
proof -
  have h: "\<not> str_in ''<think>'' (strip_think_tags ''a<think>b</think>c'')
         \<and> \<not> str_in ''</think>'' (strip_think_tags ''a<think>b</think>c'')"
    by code_simp
  with strip_think_tags_idempotent_iff [of "''a<think>b</think>c''"] show ?thesis
    by blast
qed

text \<open>
  C6 (as stated) fails: in \<open><thi<think>nk>\<close> the removal of the inner delimiter
  leaves \<open><think>\<close>, which a second stripping removes.
\<close>

theorem strip_think_tags_not_idempotent:
  "strip_think_tags (strip_think_tags ''<thi<think>nk>'') \<noteq> strip_think_tags ''<thi<think>nk>''"
  by (simp add: strip_think_tags_def)

end
